theory Spec2Isabelle
  imports Complex_Main "HOL-Library.Word"
begin

unbundle bit_operations_syntax

section \<open>Data model\<close>

text \<open>
  A \<^verbatim>\<open>Uint8Array\<close> is a list of 8-bit words. Bit streams are \<^verbatim>\<open>Uint8Array\<close>s too
  (one entry per bit), exactly as in the source. A JavaScript string is the list of its
  UTF-16 code units; every code point the text engine looks at lies in the Basic
  Multilingual Plane, so iterating by code point or by code unit selects the same
  characters.
\<close>

type_synonym byte = "8 word"
type_synonym bytes = "8 word list"
type_synonym jsstring = "nat list"

text \<open>
  Every \<^verbatim>\<open>throw\<close> of the modelled functions is a value of this type. The text decoders
  catch whatever is thrown while a payload is parsed and rethrow it wrapped as
  \<^verbatim>\<open>Decoding failed: ...\<close>; failures of the host's codecs are \<open>HostError\<close>, and
  \<open>RangeError\<close> is also what a string concatenation beyond the host's longest string throws.
\<close>

datatype error =
    InvalidBitDepth nat
  | MessageTooLarge nat nat
  | JpegMessageTooLarge nat nat
  | NoValidChunks
  | FrameIndexOutOfRange int nat
  | RangeError
  | InvalidZWCLength nat
  | PayloadTypeMismatch nat
  | IncompletePayload nat nat
  | UnknownPayloadType nat
  | EncryptedDataTooShort
  | CryptoUnavailable
  | HostError
  | CoverTooLong nat nat
  | SecretTooLong nat nat
  | PayloadTooLarge int int
  | DecodingFailed error

section \<open>Bit/byte marshalling (common.ts)\<close>

text \<open>
  \<^verbatim>\<open>bytesToBits\<close>: the array \<^verbatim>\<open>bits\<close> is allocated with \<^verbatim>\<open>bytes.length * 8\<close> zeros
  and filled by two nested counting loops, \<^verbatim>\<open>bits[i * 8 + j] = (byte >> j) & 1\<close>.
\<close>

function bytesToBits_inner :: "byte \<Rightarrow> nat \<Rightarrow> nat \<Rightarrow> bytes \<Rightarrow> bytes" where
  "bytesToBits_inner byte i j bits =
     (if j < 8
      then bytesToBits_inner byte i (j + 1) (bits[i * 8 + j := drop_bit j byte AND 1])
      else bits)"
  by pat_completeness auto
termination
  by (relation "measure (\<lambda>(byte, i, j, bits). 8 - j)") auto

declare bytesToBits_inner.simps [simp del]

function bytesToBits_outer :: "bytes \<Rightarrow> nat \<Rightarrow> bytes \<Rightarrow> bytes" where
  "bytesToBits_outer bytes i bits =
     (if i < length bytes
      then bytesToBits_outer bytes (i + 1) (bytesToBits_inner (bytes ! i) i 0 bits)
      else bits)"
  by pat_completeness auto
termination
  by (relation "measure (\<lambda>(bytes, i, bits). length bytes - i)") auto

declare bytesToBits_outer.simps [simp del]

definition bytesToBits :: "bytes \<Rightarrow> bytes" where
  "bytesToBits bytes = bytesToBits_outer bytes 0 (replicate (length bytes * 8) 0)"

text \<open>
  \<^verbatim>\<open>bitsToBytes\<close>: \<^verbatim>\<open>byteCount = Math.floor(bits.length / 8)\<close>; each output byte is
  accumulated with \<^verbatim>\<open>byte |= (bits[bitIndex] & 1) << j\<close> under the guard
  \<^verbatim>\<open>bitIndex < bits.length\<close>. The accumulator never exceeds 255, so an 8-bit word
  holds it exactly.
\<close>

function bitsToBytes_inner :: "bytes \<Rightarrow> nat \<Rightarrow> nat \<Rightarrow> byte \<Rightarrow> byte" where
  "bitsToBytes_inner bits i j byte =
     (if j < 8
      then bitsToBytes_inner bits i (j + 1)
             (let bitIndex = i * 8 + j
              in if bitIndex < length bits
                 then byte OR push_bit j (bits ! bitIndex AND 1)
                 else byte)
      else byte)"
  by pat_completeness auto
termination
  by (relation "measure (\<lambda>(bits, i, j, byte). 8 - j)") auto

declare bitsToBytes_inner.simps [simp del]

function bitsToBytes_outer :: "bytes \<Rightarrow> nat \<Rightarrow> nat \<Rightarrow> bytes \<Rightarrow> bytes" where
  "bitsToBytes_outer bits byteCount i out =
     (if i < byteCount
      then bitsToBytes_outer bits byteCount (i + 1) (out[i := bitsToBytes_inner bits i 0 0])
      else out)"
  by pat_completeness auto
termination
  by (relation "measure (\<lambda>(bits, byteCount, i, out). byteCount - i)") auto

declare bitsToBytes_outer.simps [simp del]

definition bitsToBytes :: "bytes \<Rightarrow> bytes" where
  "bitsToBytes bits =
     (let byteCount = length bits div 8
      in bitsToBytes_outer bits byteCount 0 (replicate byteCount 0))"

section \<open>Text capacity (text.ts)\<close>

text \<open>
  \<^verbatim>\<open>calculateTextCapacity\<close>. \<^verbatim>\<open>coverText.length\<close> counts UTF-16 code units. The
  product with \<^verbatim>\<open>0.1\<close> is taken over the reals here; the source rounds it to a double
  first, which cannot lift it above the length itself, and only the maximum with the
  length is used afterwards.
\<close>

definition calculateTextCapacity :: "jsstring \<Rightarrow> int" where
  "calculateTextCapacity coverText =
     (let estimatedZWC = \<lfloor>real (length coverText) * 0.1\<rfloor>;
          availableZWC = max estimatedZWC (int (length coverText));
          payloadZWC = max 0 (availableZWC - 26);
          payloadBytes = payloadZWC div 4
      in payloadBytes)"

section \<open>Pixel LSB engine (image.ts)\<close>

text \<open>
  \<^verbatim>\<open>embedLSB\<close>. The bit depth is an integer count; the bitwise operators of the source
  work on 32-bit integers, so the mask \<^verbatim>\<open>0xFF << bitDepth\<close> (\<open>lsbMask\<close> below) and the accumulator
  \<^verbatim>\<open>bitsToEmbed\<close> are 32-bit words, and the store into the \<^verbatim>\<open>Uint8Array\<close> keeps the
  low eight bits. \<^verbatim>\<open>(imageData.length / 4) * 3\<close> is computed over the reals (both
  operations are exact on doubles for every array length).

  The inner loop gathers up to \<^verbatim>\<open>bitDepth\<close> message bits; the outer loop walks the
  buffer, skips every index with \<^verbatim>\<open>i % 4 === 3\<close>, and stops once the message is
  exhausted.
\<close>

function embedLSB_inner :: "bytes \<Rightarrow> nat \<Rightarrow> nat \<Rightarrow> 32 word \<Rightarrow> nat \<Rightarrow> 32 word \<times> nat" where
  "embedLSB_inner messageBits bitDepth j bitsToEmbed bitIndex =
     (if j < bitDepth \<and> bitIndex < length messageBits
      then (let messageBit = ucast (messageBits ! bitIndex AND 1)
            in embedLSB_inner messageBits bitDepth (j + 1)
                 (bitsToEmbed OR push_bit j messageBit) (bitIndex + 1))
      else (bitsToEmbed, bitIndex))"
  by pat_completeness auto
termination
  by (relation "measure (\<lambda>(messageBits, bitDepth, j, bitsToEmbed, bitIndex). bitDepth - j)") auto

declare embedLSB_inner.simps [simp del]

function embedLSB_loop ::
  "bytes \<Rightarrow> bytes \<Rightarrow> nat \<Rightarrow> 32 word \<Rightarrow> nat \<Rightarrow> bytes \<Rightarrow> nat \<Rightarrow> bytes" where
  "embedLSB_loop imageData messageBits bitDepth lsbMask i result bitIndex =
     (if i < length imageData \<and> bitIndex < length messageBits
      then (if i mod 4 = 3
            then embedLSB_loop imageData messageBits bitDepth lsbMask (i + 1) result bitIndex
            else (case embedLSB_inner messageBits bitDepth 0 0 bitIndex of
                    (bitsToEmbed, bitIndex') \<Rightarrow>
                      embedLSB_loop imageData messageBits bitDepth lsbMask (i + 1)
                        (result[i := ucast ((ucast (result ! i) AND lsbMask) OR bitsToEmbed)])
                        bitIndex'))
      else result)"
  by pat_completeness auto
termination
  by (relation "measure (\<lambda>(imageData, messageBits, bitDepth, lsbMask, i, result, bitIndex).
        length imageData - i)") auto

declare embedLSB_loop.simps [simp del]

definition embedLSB :: "bytes \<Rightarrow> bytes \<Rightarrow> nat \<Rightarrow> error + bytes" where
  "embedLSB imageData messageBits bitDepth =
     (if bitDepth < 1 \<or> bitDepth > 4 then Inl (InvalidBitDepth bitDepth)
      else
        let result = imageData;
            maxBits = nat \<lfloor>(real (length imageData) / 4) * 3\<rfloor> * bitDepth
        in if length messageBits > maxBits
           then Inl (MessageTooLarge (length messageBits) maxBits)
           else
             let lsbMask = push_bit bitDepth (0xFF :: 32 word)
             in Inr (embedLSB_loop imageData messageBits bitDepth lsbMask 0 result 0))"

text \<open>
  \<^verbatim>\<open>new Uint8Array(length)\<close> with a number: the language converts the length with
  \<^verbatim>\<open>ToIndex\<close>, which throws a \<^verbatim>\<open>RangeError\<close> above \<open>2^53 - 1\<close>, and then asks the host for
  the buffer, which throws a \<^verbatim>\<open>RangeError\<close> too when the host cannot provide it. What the
  host can provide is not in the source: \<open>canAllocate\<close> is a parameter. \<open>unlimitedHost\<close>
  is the host that never refuses.
\<close>

definition new_Uint8Array_of_length :: "(nat \<Rightarrow> bool) \<Rightarrow> nat \<Rightarrow> error + bytes" where
  "new_Uint8Array_of_length canAllocate len =
     (if len > 2 ^ 53 - 1 then Inl RangeError
      else if canAllocate len then Inr (replicate len 0)
      else Inl RangeError)"

definition unlimitedHost :: "nat \<Rightarrow> bool" where
  "unlimitedHost len = True"

text \<open>
  \<^verbatim>\<open>extractLSB\<close>. \<^verbatim>\<open>bitCount\<close> and \<^verbatim>\<open>bitOffset\<close> are non-negative integers.
  \<^verbatim>\<open>actualBitCount\<close> is \<^verbatim>\<open>Math.min(bitCount, maxBits - bitOffset)\<close> and
  may be negative, so it is an integer. The inner loop first uses up the offset
  (\<^verbatim>\<open>continue\<close>), then leaves (\<^verbatim>\<open>break\<close>) once \<^verbatim>\<open>actualBitCount\<close> bits are read.
\<close>

function extractLSB_inner ::
  "bytes \<Rightarrow> nat \<Rightarrow> nat \<Rightarrow> int \<Rightarrow> nat \<Rightarrow> nat \<Rightarrow> bytes \<Rightarrow> nat \<Rightarrow> nat \<Rightarrow> bytes \<times> nat \<times> nat" where
  "extractLSB_inner imageData bitDepth bitOffset actualBitCount i j bits bitIndex bitsSkipped =
     (if j < bitDepth
      then (if bitsSkipped < bitOffset
            then extractLSB_inner imageData bitDepth bitOffset actualBitCount i (j + 1)
                   bits bitIndex (bitsSkipped + 1)
            else if int bitIndex \<ge> actualBitCount
            then (bits, bitIndex, bitsSkipped)
            else extractLSB_inner imageData bitDepth bitOffset actualBitCount i (j + 1)
                   (bits[bitIndex := drop_bit j (imageData ! i) AND 1]) (bitIndex + 1) bitsSkipped)
      else (bits, bitIndex, bitsSkipped))"
  by pat_completeness auto
termination
  by (relation "measure (\<lambda>(imageData, bitDepth, bitOffset, actualBitCount, i, j, st). bitDepth - j)")
     auto

declare extractLSB_inner.simps [simp del]

function extractLSB_loop ::
  "bytes \<Rightarrow> nat \<Rightarrow> nat \<Rightarrow> int \<Rightarrow> nat \<Rightarrow> bytes \<Rightarrow> nat \<Rightarrow> nat \<Rightarrow> bytes \<times> nat \<times> nat" where
  "extractLSB_loop imageData bitDepth bitOffset actualBitCount i bits bitIndex bitsSkipped =
     (if i < length imageData \<and> int bitIndex < actualBitCount
      then (if i mod 4 = 3
            then extractLSB_loop imageData bitDepth bitOffset actualBitCount (i + 1)
                   bits bitIndex bitsSkipped
            else (case extractLSB_inner imageData bitDepth bitOffset actualBitCount i 0
                         bits bitIndex bitsSkipped of
                    (bits', bitIndex', bitsSkipped') \<Rightarrow>
                      extractLSB_loop imageData bitDepth bitOffset actualBitCount (i + 1)
                        bits' bitIndex' bitsSkipped'))
      else (bits, bitIndex, bitsSkipped))"
  by pat_completeness auto
termination
  by (relation "measure (\<lambda>(imageData, bitDepth, bitOffset, actualBitCount, i, st).
        length imageData - i)") auto

declare extractLSB_loop.simps [simp del]

definition extractLSB :: "(nat \<Rightarrow> bool) \<Rightarrow> bytes \<Rightarrow> nat \<Rightarrow> nat \<Rightarrow> nat \<Rightarrow> error + bytes" where
  "extractLSB canAllocate imageData bitCount bitDepth bitOffset =
     (if bitDepth < 1 \<or> bitDepth > 4 then Inl (InvalidBitDepth bitDepth)
      else
        case new_Uint8Array_of_length canAllocate bitCount of
          Inl e \<Rightarrow> Inl e
        | Inr bits \<Rightarrow>
            let maxBits = nat \<lfloor>(real (length imageData) / 4) * 3\<rfloor> * bitDepth;
                actualBitCount = min (int bitCount) (int maxBits - int bitOffset)
            in case extractLSB_loop imageData bitDepth bitOffset actualBitCount 0 bits 0 0 of
                 (bits', bitIndex, bitsSkipped) \<Rightarrow> Inr bits')"

subsection \<open>The same function over an explicit store\<close>

text \<open>
  \<^verbatim>\<open>embedLSB\<close> receives references to two \<^verbatim>\<open>Uint8Array\<close>s and returns a reference.
  To speak about which arrays a call writes, the arrays live in a store (the list of all
  arrays allocated so far; a reference is a position in it).
  \<^verbatim>\<open>new Uint8Array(imageData)\<close> allocates a copy at the next free position; the loop
  reads \<^verbatim>\<open>imageData.length\<close> and \<^verbatim>\<open>messageBits\<close> through the references it was given
  and writes only through \<^verbatim>\<open>result\<close>.
\<close>

type_synonym addr = nat
type_synonym store = "bytes list"

definition new_Uint8Array :: "store \<Rightarrow> bytes \<Rightarrow> store \<times> addr" where
  "new_Uint8Array s contents = (s @ [contents], length s)"

function embedLSB_loop_store ::
  "addr \<Rightarrow> addr \<Rightarrow> addr \<Rightarrow> nat \<Rightarrow> 32 word \<Rightarrow> nat \<Rightarrow> nat \<Rightarrow> store \<Rightarrow> store" where
  "embedLSB_loop_store imageData messageBits result bitDepth lsbMask i bitIndex s =
     (if i < length (s ! imageData) \<and> bitIndex < length (s ! messageBits)
      then (if i mod 4 = 3
            then embedLSB_loop_store imageData messageBits result bitDepth lsbMask (i + 1) bitIndex s
            else (case embedLSB_inner (s ! messageBits) bitDepth 0 0 bitIndex of
                    (bitsToEmbed, bitIndex') \<Rightarrow>
                      embedLSB_loop_store imageData messageBits result bitDepth lsbMask (i + 1)
                        bitIndex'
                        (s[result := (s ! result)
                             [i := ucast ((ucast (s ! result ! i) AND lsbMask) OR bitsToEmbed)]])))
      else s)"
  by pat_completeness auto
termination
proof (relation "measure (\<lambda>(imageData, messageBits, result, bitDepth, lsbMask, i, bitIndex, s).
        length (s ! imageData) - i)", goal_cases)
  case 1
  show ?case by simp
next
  case (2 imageData messageBits result bitDepth lsbMask i bitIndex s)
  then show ?case by auto
next
  case (3 imageData messageBits result bitDepth lsbMask i bitIndex s x y)
  have "length (s[result := (s ! result)[i := v]] ! imageData) = length (s ! imageData)" for v
    by (cases "result < length s"; cases "imageData = result") (simp_all add: list_update_beyond)
  with 3 show ?case by auto
qed

declare embedLSB_loop_store.simps [simp del]

definition embedLSB_store :: "store \<Rightarrow> addr \<Rightarrow> addr \<Rightarrow> nat \<Rightarrow> error + (store \<times> addr)" where
  "embedLSB_store s imageData messageBits bitDepth =
     (if bitDepth < 1 \<or> bitDepth > 4 then Inl (InvalidBitDepth bitDepth)
      else
        case new_Uint8Array s (s ! imageData) of
          (s1, result) \<Rightarrow>
            let maxBits = nat \<lfloor>(real (length (s1 ! imageData)) / 4) * 3\<rfloor> * bitDepth
            in if length (s1 ! messageBits) > maxBits
               then Inl (MessageTooLarge (length (s1 ! messageBits)) maxBits)
               else
                 let lsbMask = push_bit bitDepth (0xFF :: 32 word)
                 in Inr (embedLSB_loop_store imageData messageBits result bitDepth lsbMask 0 0 s1,
                         result))"

section \<open>JPEG DCT coefficient engine (image.ts)\<close>

text \<open>
  A block is an \<^verbatim>\<open>Int32Array\<close> of 64 quantized coefficients: a list of 32-bit words read
  as signed integers. Values taken out of a block are JavaScript numbers (integers here);
  the bitwise operators convert their operands to 32-bit signed integers first, and a
  store into the block keeps the low 32 bits.

  \<^verbatim>\<open>embedInCoefficients\<close> mutates the blocks in place and returns the object it was given;
  here the updated object is returned. Every cell of a component's grid is modelled as a
  block of its own, as in objects produced by the decoder or by \<^verbatim>\<open>cloneJpegCoefficients\<close>.
\<close>

type_synonym int32 = "32 word"
type_synonym block = "int32 list"

record JPEGComponentCoefficients =
  id' :: int
  blocks :: "block list list"

record JPEGQuantizedCoefficients =
  components :: "JPEGComponentCoefficients list"

definition toInt32 :: "int \<Rightarrow> int" where
  "toInt32 x = signed_take_bit 31 x"

definition js_and :: "int \<Rightarrow> int \<Rightarrow> int" where
  "js_and a b = toInt32 a AND toInt32 b"

definition js_or :: "int \<Rightarrow> int \<Rightarrow> int" where
  "js_or a b = toInt32 a OR toInt32 b"

definition js_not :: "int \<Rightarrow> int" where
  "js_not a = NOT (toInt32 a)"

text \<open>A coefficient is usable iff it is none of 0, 1 and -1 (the test all loops share).\<close>

abbreviation usable :: "int \<Rightarrow> bool" where
  "usable coeff \<equiv> coeff \<noteq> 0 \<and> coeff \<noteq> 1 \<and> coeff \<noteq> - 1"

text \<open>
  The body of the innermost loop of \<^verbatim>\<open>embedInCoefficients\<close> for coefficient index \<open>i\<close>:
  it returns the block and the bit index after the iteration. Each \<^verbatim>\<open>continue\<close> of the
  source returns without advancing \<^verbatim>\<open>bitIndex\<close>.
\<close>

definition embedInCoefficients_body :: "bytes \<Rightarrow> nat \<Rightarrow> block \<Rightarrow> nat \<Rightarrow> block \<times> nat" where
  "embedInCoefficients_body messageBits i block bitIndex =
     (let coeff = sint (block ! i)
      in if coeff \<noteq> 0 \<and> coeff \<noteq> 1 \<and> coeff \<noteq> - 1
         then
           let messageBit = uint (messageBits ! bitIndex AND 1);
               coeffLSB = js_and \<bar>coeff\<bar> 1
           in if coeffLSB \<noteq> messageBit
              then
                if coeff > 0
                then
                  let block1 = block[i := word_of_int
                        (if messageBit \<noteq> 0 then js_or coeff 1 else js_and coeff (js_not 1))]
                  in if sint (block1 ! i) = 0 \<or> sint (block1 ! i) = 1
                     then (block1[i := word_of_int coeff], bitIndex)
                     else (block1, bitIndex + 1)
                else
                  let absCoeff = - coeff;
                      newAbs = (if messageBit \<noteq> 0 then js_or absCoeff 1
                                else js_and absCoeff (js_not 1))
                  in if newAbs = 0 \<or> newAbs = 1
                     then (block, bitIndex)
                     else (block[i := word_of_int (- newAbs)], bitIndex + 1)
              else (block, bitIndex + 1)
         else (block, bitIndex))"

function embedInCoefficients_block :: "bytes \<Rightarrow> nat \<Rightarrow> block \<Rightarrow> nat \<Rightarrow> block \<times> nat" where
  "embedInCoefficients_block messageBits i block bitIndex =
     (if i < 64 \<and> bitIndex < length messageBits
      then (case embedInCoefficients_body messageBits i block bitIndex of
              (block', bitIndex') \<Rightarrow> embedInCoefficients_block messageBits (i + 1) block' bitIndex')
      else (block, bitIndex))"
  by pat_completeness auto
termination
  by (relation "measure (\<lambda>(messageBits, i, block, bitIndex). 64 - i)") auto

declare embedInCoefficients_block.simps [simp del]

fun embedInCoefficients_row :: "bytes \<Rightarrow> block list \<Rightarrow> nat \<Rightarrow> block list \<times> nat" where
  "embedInCoefficients_row messageBits [] bitIndex = ([], bitIndex)"
| "embedInCoefficients_row messageBits (block # row) bitIndex =
     (if bitIndex \<ge> length messageBits then (block # row, bitIndex)
      else (case embedInCoefficients_block messageBits 1 block bitIndex of
              (block', bitIndex') \<Rightarrow>
                (case embedInCoefficients_row messageBits row bitIndex' of
                   (row', bitIndex'') \<Rightarrow> (block' # row', bitIndex''))))"

fun embedInCoefficients_rows :: "bytes \<Rightarrow> block list list \<Rightarrow> nat \<Rightarrow> block list list \<times> nat" where
  "embedInCoefficients_rows messageBits [] bitIndex = ([], bitIndex)"
| "embedInCoefficients_rows messageBits (row # rows) bitIndex =
     (if bitIndex \<ge> length messageBits then (row # rows, bitIndex)
      else (case embedInCoefficients_row messageBits row bitIndex of
              (row', bitIndex') \<Rightarrow>
                (case embedInCoefficients_rows messageBits rows bitIndex' of
                   (rows', bitIndex'') \<Rightarrow> (row' # rows', bitIndex''))))"

fun embedInCoefficients_components ::
  "bytes \<Rightarrow> bool \<Rightarrow> JPEGComponentCoefficients list \<Rightarrow> nat \<Rightarrow> JPEGComponentCoefficients list \<times> nat" where
  "embedInCoefficients_components messageBits useChroma [] bitIndex = ([], bitIndex)"
| "embedInCoefficients_components messageBits useChroma (component # rest) bitIndex =
     (if bitIndex \<ge> length messageBits then (component # rest, bitIndex)
      else if \<not> useChroma \<and> id' component \<noteq> 1
      then (case embedInCoefficients_components messageBits useChroma rest bitIndex of
              (rest', bitIndex') \<Rightarrow> (component # rest', bitIndex'))
      else (case embedInCoefficients_rows messageBits (blocks component) bitIndex of
              (rows', bitIndex') \<Rightarrow>
                (case embedInCoefficients_components messageBits useChroma rest bitIndex' of
                   (rest', bitIndex'') \<Rightarrow> (component\<lparr>blocks := rows'\<rparr> # rest', bitIndex''))))"

definition embedInCoefficients ::
  "JPEGQuantizedCoefficients \<Rightarrow> bytes \<Rightarrow> bool \<Rightarrow> error + JPEGQuantizedCoefficients" where
  "embedInCoefficients coefficients messageBits useChroma =
     (case embedInCoefficients_components messageBits useChroma (components coefficients) 0 of
        (components', bitIndex) \<Rightarrow>
          if bitIndex < length messageBits
          then Inl (JpegMessageTooLarge (length messageBits) bitIndex)
          else Inr (coefficients\<lparr>components := components'\<rparr>))"

text \<open>
  \<^verbatim>\<open>extractFromCoefficients\<close> walks the same four loops; it only reads the blocks and
  fills \<^verbatim>\<open>bits\<close>, a \<^verbatim>\<open>Uint8Array\<close> of \<^verbatim>\<open>bitCount\<close> zeros.
\<close>

definition extractFromCoefficients_body :: "nat \<Rightarrow> block \<Rightarrow> bytes \<Rightarrow> nat \<Rightarrow> bytes \<times> nat" where
  "extractFromCoefficients_body i block bits bitIndex =
     (let coeff = sint (block ! i)
      in if coeff \<noteq> 0 \<and> coeff \<noteq> 1 \<and> coeff \<noteq> - 1
         then (bits[bitIndex := word_of_int (js_and \<bar>coeff\<bar> 1)], bitIndex + 1)
         else (bits, bitIndex))"

function extractFromCoefficients_block :: "nat \<Rightarrow> nat \<Rightarrow> block \<Rightarrow> bytes \<Rightarrow> nat \<Rightarrow> bytes \<times> nat" where
  "extractFromCoefficients_block bitCount i block bits bitIndex =
     (if i < 64 \<and> bitIndex < bitCount
      then (case extractFromCoefficients_body i block bits bitIndex of
              (bits', bitIndex') \<Rightarrow> extractFromCoefficients_block bitCount (i + 1) block bits' bitIndex')
      else (bits, bitIndex))"
  by pat_completeness auto
termination
  by (relation "measure (\<lambda>(bitCount, i, block, bits, bitIndex). 64 - i)") auto

declare extractFromCoefficients_block.simps [simp del]

fun extractFromCoefficients_row :: "nat \<Rightarrow> block list \<Rightarrow> bytes \<Rightarrow> nat \<Rightarrow> bytes \<times> nat" where
  "extractFromCoefficients_row bitCount [] bits bitIndex = (bits, bitIndex)"
| "extractFromCoefficients_row bitCount (block # row) bits bitIndex =
     (if bitIndex \<ge> bitCount then (bits, bitIndex)
      else (case extractFromCoefficients_block bitCount 1 block bits bitIndex of
              (bits', bitIndex') \<Rightarrow> extractFromCoefficients_row bitCount row bits' bitIndex'))"

fun extractFromCoefficients_rows :: "nat \<Rightarrow> block list list \<Rightarrow> bytes \<Rightarrow> nat \<Rightarrow> bytes \<times> nat" where
  "extractFromCoefficients_rows bitCount [] bits bitIndex = (bits, bitIndex)"
| "extractFromCoefficients_rows bitCount (row # rows) bits bitIndex =
     (if bitIndex \<ge> bitCount then (bits, bitIndex)
      else (case extractFromCoefficients_row bitCount row bits bitIndex of
              (bits', bitIndex') \<Rightarrow> extractFromCoefficients_rows bitCount rows bits' bitIndex'))"

fun extractFromCoefficients_components ::
  "nat \<Rightarrow> bool \<Rightarrow> JPEGComponentCoefficients list \<Rightarrow> bytes \<Rightarrow> nat \<Rightarrow> bytes \<times> nat" where
  "extractFromCoefficients_components bitCount useChroma [] bits bitIndex = (bits, bitIndex)"
| "extractFromCoefficients_components bitCount useChroma (component # rest) bits bitIndex =
     (if bitIndex \<ge> bitCount then (bits, bitIndex)
      else if \<not> useChroma \<and> id' component \<noteq> 1
      then extractFromCoefficients_components bitCount useChroma rest bits bitIndex
      else (case extractFromCoefficients_rows bitCount (blocks component) bits bitIndex of
              (bits', bitIndex') \<Rightarrow>
                extractFromCoefficients_components bitCount useChroma rest bits' bitIndex'))"

definition extractFromCoefficients :: "JPEGQuantizedCoefficients \<Rightarrow> nat \<Rightarrow> bool \<Rightarrow> bytes" where
  "extractFromCoefficients coefficients bitCount useChroma =
     fst (extractFromCoefficients_components bitCount useChroma (components coefficients)
            (replicate bitCount 0) 0)"

text \<open>
  The counting loops of \<^verbatim>\<open>calculateJpegCoefficientCapacity\<close>: \<open>bitCount\<close> is the number of
  usable AC coefficients of the selected components, and the capacity in bytes is
  \<^verbatim>\<open>Math.floor(bitCount / 8)\<close>.
\<close>

function capacity_block :: "nat \<Rightarrow> block \<Rightarrow> nat \<Rightarrow> nat" where
  "capacity_block i block bitCount =
     (if i < 64
      then (if sint (block ! i) \<noteq> 0 \<and> sint (block ! i) \<noteq> 1 \<and> sint (block ! i) \<noteq> - 1
            then capacity_block (i + 1) block (bitCount + 1)
            else capacity_block (i + 1) block bitCount)
      else bitCount)"
  by pat_completeness auto
termination
  by (relation "measure (\<lambda>(i, block, bitCount). 64 - i)") auto

declare capacity_block.simps [simp del]

fun capacity_row :: "block list \<Rightarrow> nat \<Rightarrow> nat" where
  "capacity_row [] bitCount = bitCount"
| "capacity_row (block # row) bitCount = capacity_row row (capacity_block 1 block bitCount)"

fun capacity_rows :: "block list list \<Rightarrow> nat \<Rightarrow> nat" where
  "capacity_rows [] bitCount = bitCount"
| "capacity_rows (row # rows) bitCount = capacity_rows rows (capacity_row row bitCount)"

fun capacity_components :: "bool \<Rightarrow> JPEGComponentCoefficients list \<Rightarrow> nat \<Rightarrow> nat" where
  "capacity_components useChroma [] bitCount = bitCount"
| "capacity_components useChroma (component # rest) bitCount =
     (if \<not> useChroma \<and> id' component \<noteq> 1
      then capacity_components useChroma rest bitCount
      else capacity_components useChroma rest (capacity_rows (blocks component) bitCount))"

definition calculateJpegCoefficientCapacity :: "JPEGQuantizedCoefficients \<Rightarrow> bool \<Rightarrow> nat" where
  "calculateJpegCoefficientCapacity coefficients useChroma =
     capacity_components useChroma (components coefficients) 0 div 8"

text \<open>
  The relation between the two walks used in the proofs below: after \<open>bitIndex\<close> bits,
  the array being filled by the extractor has the length of the message and holds the low
  bit of each of the first \<open>bitIndex\<close> message entries.
\<close>

definition extracted_prefix :: "bytes \<Rightarrow> bytes \<Rightarrow> nat \<Rightarrow> bool" where
  "extracted_prefix messageBits bits bitIndex \<longleftrightarrow>
     length bits = length messageBits \<and> bitIndex \<le> length messageBits \<and>
     (\<forall>k < bitIndex. bits ! k = messageBits ! k AND 1)"

section \<open>Multi-frame extraction (image.ts)\<close>



definition getUint32 :: "bytes \<Rightarrow> nat \<Rightarrow> error + nat" where
  "getUint32 buffer offset =
     (if offset + 4 \<le> length buffer
      then Inr (unat (buffer ! offset) + 256 * unat (buffer ! (offset + 1))
                + 65536 * unat (buffer ! (offset + 2)) + 16777216 * unat (buffer ! (offset + 3)))
      else Inl RangeError)"







subsection \<open>The acceptance rule of the collecting loop, stated on its own\<close>




section \<open>Text engine (text.ts)\<close>

subsection \<open>Constants and the host\<close>

definition ZWC_MAP :: "nat list" where
  "ZWC_MAP = [0x200b, 0x200c, 0x200d, 0xfeff, 0x2060, 0x2061]"

definition START_SENTINEL :: jsstring where
  "START_SENTINEL = [0x200b, 0x200c, 0x200b]"

definition END_SENTINEL :: jsstring where
  "END_SENTINEL = [0x200c, 0x200b, 0x200c]"

definition PAYLOAD_TYPE_TEXT :: nat where
  "PAYLOAD_TYPE_TEXT = 1"

definition PAYLOAD_TYPE_BINARY :: nat where
  "PAYLOAD_TYPE_BINARY = 2"

text \<open>
  What the text engine takes from its host: the allocator behind
  \<^verbatim>\<open>new Uint8Array(length)\<close>, the longest string the engine can build (a concatenation
  beyond it throws a \<^verbatim>\<open>RangeError\<close>), \<^verbatim>\<open>TextEncoder\<close> and the fatal \<^verbatim>\<open>TextDecoder\<close>, the
  chunks that a \<^verbatim>\<open>CompressionStream("deflate")\<close> and a \<^verbatim>\<open>DecompressionStream("deflate")\<close>
  deliver for a written buffer, whether \<^verbatim>\<open>crypto.subtle\<close> exists, the bytes that the two
  calls of \<^verbatim>\<open>getRandomValues\<close> in \<^verbatim>\<open>encrypt\<close> draw, PBKDF2 (password bytes, salt,
  iterations) and AES-CTR (key, counter, input). None of these is code of the
  repository, so each is a field of the record and a theorem says what it needs of them.
  A promise that rejects is an \<open>Inl\<close> result, and \<^verbatim>\<open>await\<close> is \<open>andThen\<close>.
\<close>

record js_host =
  host_canAllocate :: "nat \<Rightarrow> bool"
  host_maxStringLength :: nat
  host_utf8_encode :: "jsstring \<Rightarrow> bytes"
  host_utf8_decode :: "bytes \<Rightarrow> error + jsstring"
  host_deflate :: "bytes \<Rightarrow> error + bytes list"
  host_inflate :: "bytes \<Rightarrow> error + bytes list"
  host_cryptoAvailable :: bool
  host_randomSalt :: "nat \<Rightarrow> byte"
  host_randomCounter :: "nat \<Rightarrow> byte"
  host_pbkdf2 :: "bytes \<Rightarrow> bytes \<Rightarrow> nat \<Rightarrow> error + bytes"
  host_aesCtrEncrypt :: "bytes \<Rightarrow> bytes \<Rightarrow> bytes \<Rightarrow> error + bytes"
  host_aesCtrDecrypt :: "bytes \<Rightarrow> bytes \<Rightarrow> bytes \<Rightarrow> error + bytes"

definition andThen :: "error + 'a \<Rightarrow> ('a \<Rightarrow> error + 'b) \<Rightarrow> error + 'b" where
  "andThen r k = (case r of Inl e \<Rightarrow> Inl e | Inr x \<Rightarrow> k x)"

text \<open>
  String operations. \<open>str_concat\<close> is \<^verbatim>\<open>a + b\<close>. \<open>substring\<close> is
  \<^verbatim>\<open>s.substring(a, b)\<close> for non-negative integers: both ends are clamped to the length
  and swapped when out of order; \<open>substring_from\<close> is \<^verbatim>\<open>s.substring(a)\<close>. \<open>indexOf\<close> is the
  least position at which the pattern starts, or \<open>-1\<close>. \<open>replace_first\<close> is
  \<^verbatim>\<open>s.replace(pattern, "")\<close> with a string pattern, which removes the first occurrence
  only; \<open>replace_ZWC_PATTERN\<close> is \<^verbatim>\<open>s.replace(ZWC_PATTERN, "")\<close>: the pattern is global and
  matches every run of the six code units of \<^verbatim>\<open>ZWC_MAP\<close>, so all of them are removed.
  \<open>js_trim\<close> is \<^verbatim>\<open>s.trim()\<close>: it removes the language's white space and line terminators
  from both ends.
\<close>

definition str_concat :: "js_host \<Rightarrow> jsstring \<Rightarrow> jsstring \<Rightarrow> error + jsstring" where
  "str_concat h a b =
     (if length a + length b > host_maxStringLength h then Inl RangeError else Inr (a @ b))"

definition substring :: "jsstring \<Rightarrow> nat \<Rightarrow> nat \<Rightarrow> jsstring" where
  "substring s a b =
     (let a' = min a (length s); b' = min b (length s);
          lo = min a' b'; hi = max a' b'
      in take (hi - lo) (drop lo s))"

definition substring_from :: "jsstring \<Rightarrow> nat \<Rightarrow> jsstring" where
  "substring_from s a = substring s a (length s)"

fun indexOf_at :: "jsstring \<Rightarrow> jsstring \<Rightarrow> nat \<Rightarrow> int" where
  "indexOf_at [] pattern k = (if pattern = [] then int k else - 1)"
| "indexOf_at (x # xs) pattern k =
     (if take (length pattern) (x # xs) = pattern then int k else indexOf_at xs pattern (k + 1))"

definition indexOf :: "jsstring \<Rightarrow> jsstring \<Rightarrow> int" where
  "indexOf s pattern = indexOf_at s pattern 0"

definition replace_first :: "jsstring \<Rightarrow> jsstring \<Rightarrow> jsstring" where
  "replace_first s pattern =
     (let pos = indexOf s pattern
      in if pos = - 1 then s else take (nat pos) s @ drop (nat pos + length pattern) s)"

definition replace_ZWC_PATTERN :: "jsstring \<Rightarrow> jsstring" where
  "replace_ZWC_PATTERN s = filter (\<lambda>char. char \<notin> set ZWC_MAP) s"

definition isWhiteSpace :: "nat \<Rightarrow> bool" where
  "isWhiteSpace char \<longleftrightarrow>
     char \<in> {0x09, 0x0a, 0x0b, 0x0c, 0x0d, 0x20, 0xa0, 0x1680, 0x2028, 0x2029, 0x202f, 0x205f,
             0x3000, 0xfeff} \<or> (0x2000 \<le> char \<and> char \<le> 0x200a)"

definition js_trim :: "jsstring \<Rightarrow> jsstring" where
  "js_trim s = rev (dropWhile isWhiteSpace (rev (dropWhile isWhiteSpace s)))"

text \<open>
  Typed arrays. \<^verbatim>\<open>target.set(source, offset)\<close> throws a \<^verbatim>\<open>RangeError\<close> when the source
  does not fit; \<^verbatim>\<open>DataView.setUint32(offset, value, true)\<close> stores the value modulo
  \<open>2^32\<close>, least significant byte first.
\<close>

definition typedArray_set :: "bytes \<Rightarrow> bytes \<Rightarrow> nat \<Rightarrow> error + bytes" where
  "typedArray_set target source offset =
     (if offset + length source > length target then Inl RangeError
      else Inr (take offset target @ source @ drop (offset + length source) target))"

definition setUint32 :: "bytes \<Rightarrow> nat \<Rightarrow> nat \<Rightarrow> error + bytes" where
  "setUint32 buffer offset v =
     (if offset + 4 \<le> length buffer
      then let u = v mod 2 ^ 32
           in Inr (buffer[offset := of_nat (u mod 256),
                          offset + 1 := of_nat (u div 256 mod 256),
                          offset + 2 := of_nat (u div 65536 mod 256),
                          offset + 3 := of_nat (u div 16777216)])
      else Inl RangeError)"

subsection \<open>Compression and encryption wrappers\<close>

text \<open>
  \<^verbatim>\<open>compress\<close> and \<^verbatim>\<open>decompress\<close> write the buffer to the host's stream, read the chunks
  until the stream is done, allocate an array of their total length and copy each chunk
  to its offset.
\<close>

fun copy_chunks :: "bytes list \<Rightarrow> bytes \<Rightarrow> nat \<Rightarrow> error + bytes" where
  "copy_chunks [] result offset = Inr result"
| "copy_chunks (chunk # chunks) result offset =
     (case typedArray_set result chunk offset of
        Inl e \<Rightarrow> Inl e
      | Inr result' \<Rightarrow> copy_chunks chunks result' (offset + length chunk))"

definition join_chunks :: "js_host \<Rightarrow> bytes list \<Rightarrow> error + bytes" where
  "join_chunks h chunks =
     (let totalLength = foldl (\<lambda>acc chunk. acc + length chunk) 0 chunks
      in andThen (new_Uint8Array_of_length (host_canAllocate h) totalLength)
           (\<lambda>result. copy_chunks chunks result 0))"

definition compress :: "js_host \<Rightarrow> bytes \<Rightarrow> error + bytes" where
  "compress h buffer = andThen (host_deflate h buffer) (join_chunks h)"

definition decompress :: "js_host \<Rightarrow> bytes \<Rightarrow> error + bytes" where
  "decompress h buffer = andThen (host_inflate h buffer) (join_chunks h)"

definition checkCryptoAvailable :: "js_host \<Rightarrow> error + unit" where
  "checkCryptoAvailable h = (if host_cryptoAvailable h then Inr () else Inl CryptoUnavailable)"

definition deriveKey :: "js_host \<Rightarrow> jsstring \<Rightarrow> bytes \<Rightarrow> error + bytes" where
  "deriveKey h password salt =
     andThen (checkCryptoAvailable h)
       (\<lambda>_. host_pbkdf2 h (host_utf8_encode h password) salt 100000)"

text \<open>
  \<^verbatim>\<open>encrypt\<close> returns \<^verbatim>\<open>[16-byte salt][16-byte counter][encrypted data]\<close>;
  \<^verbatim>\<open>decrypt\<close> refuses fewer than 33 bytes and splits the rest at 16 and 32.
\<close>

definition encrypt :: "js_host \<Rightarrow> bytes \<Rightarrow> jsstring \<Rightarrow> error + bytes" where
  "encrypt h plain password =
     andThen (checkCryptoAvailable h) (\<lambda>_.
     andThen (new_Uint8Array_of_length (host_canAllocate h) 16) (\<lambda>saltBuffer.
     andThen (new_Uint8Array_of_length (host_canAllocate h) 16) (\<lambda>counterBuffer.
       let salt = map (host_randomSalt h) [0..<length saltBuffer];
           counter = map (host_randomCounter h) [0..<length counterBuffer]
       in andThen (deriveKey h password salt) (\<lambda>key.
          andThen (host_aesCtrEncrypt h key counter plain) (\<lambda>encrypted.
          andThen (new_Uint8Array_of_length (host_canAllocate h) (32 + length encrypted)) (\<lambda>result.
          andThen (typedArray_set result salt 0) (\<lambda>result.
          andThen (typedArray_set result counter 16) (\<lambda>result.
            typedArray_set result encrypted 32))))))))"

definition decrypt :: "js_host \<Rightarrow> bytes \<Rightarrow> jsstring \<Rightarrow> error + bytes" where
  "decrypt h cipher password =
     andThen (checkCryptoAvailable h) (\<lambda>_.
       if length cipher < 33 then Inl EncryptedDataTooShort
       else let salt = take 16 cipher;
                counter = take 16 (drop 16 cipher);
                ciphertext = drop 32 cipher
            in andThen (deriveKey h password salt) (\<lambda>key.
                 host_aesCtrDecrypt h key counter ciphertext))"

subsection \<open>Base-6 coding of bytes as zero-width characters\<close>

text \<open>
  \<^verbatim>\<open>bytesToZWC\<close>: four base-6 digits per byte, most significant first (each digit is
  \<^verbatim>\<open>unshift\<close>ed to the front), mapped through \<^verbatim>\<open>ZWC_MAP\<close> and appended to the result.
\<close>

function bytesToZWC_digits :: "nat \<Rightarrow> nat \<Rightarrow> nat list \<Rightarrow> nat list" where
  "bytesToZWC_digits i v digits =
     (if i < 4 then bytesToZWC_digits (i + 1) (v div 6) ((v mod 6) # digits) else digits)"
  by pat_completeness auto
termination
  by (relation "measure (\<lambda>(i, v, digits). 4 - i)") auto

declare bytesToZWC_digits.simps [simp del]

fun bytesToZWC_loop :: "js_host \<Rightarrow> bytes \<Rightarrow> jsstring \<Rightarrow> error + jsstring" where
  "bytesToZWC_loop h [] result = Inr result"
| "bytesToZWC_loop h (byte # rest) result =
     (case str_concat h result (map (\<lambda>d. ZWC_MAP ! d) (bytesToZWC_digits 0 (unat byte) [])) of
        Inl e \<Rightarrow> Inl e
      | Inr result' \<Rightarrow> bytesToZWC_loop h rest result')"

definition bytesToZWC :: "js_host \<Rightarrow> bytes \<Rightarrow> error + jsstring" where
  "bytesToZWC h bs = bytesToZWC_loop h bs []"

text \<open>
  \<^verbatim>\<open>zwcToBytes\<close>: \<^verbatim>\<open>reverseMap\<close> is filled by \<^verbatim>\<open>ZWC_MAP.forEach\<close>; characters outside it
  are skipped; the digits must come in fours; each four digits give
  \<^verbatim>\<open>d0 * 216 + d1 * 36 + d2 * 6 + d3\<close>, which \<^verbatim>\<open>new Uint8Array(bytes)\<close> stores modulo 256.
  The digit loop reads \<^verbatim>\<open>digits[i + 3]\<close> only below a length that is a multiple of four.
\<close>

definition reverseMap :: "nat \<rightharpoonup> nat" where
  "reverseMap =
     foldl (\<lambda>m (char, index). m(char \<mapsto> index)) Map.empty (zip ZWC_MAP [0..<length ZWC_MAP])"

function zwcToBytes_loop :: "nat list \<Rightarrow> nat \<Rightarrow> nat list \<Rightarrow> nat list" where
  "zwcToBytes_loop digits i out =
     (if i < length digits
      then zwcToBytes_loop digits (i + 4)
             (out @ [digits ! i * 216 + digits ! (i + 1) * 36 + digits ! (i + 2) * 6
                      + digits ! (i + 3)])
      else out)"
  by pat_completeness auto
termination
  by (relation "measure (\<lambda>(digits, i, out). length digits - i)") auto

declare zwcToBytes_loop.simps [simp del]

definition zwcToBytes :: "jsstring \<Rightarrow> error + bytes" where
  "zwcToBytes zwcString =
     (let digits = map (\<lambda>char. the (reverseMap char))
                         (filter (\<lambda>char. reverseMap char \<noteq> None) zwcString)
      in if length digits mod 4 \<noteq> 0 then Inl (InvalidZWCLength (length digits))
         else Inr (map of_nat (zwcToBytes_loop digits 0 [])))"

subsection \<open>Embedding\<close>

text \<open>
  \<^verbatim>\<open>distributeZWC\<close> collects the positions after each break character, and without any
  appends the payload between the sentinels; otherwise it copies the cover text up to
  each point followed by the next \<^verbatim>\<open>Math.ceil(zwcChars.length / insertionPoints.length)\<close>
  payload characters, and wraps the whole in the sentinels.
\<close>

definition isBreakChar :: "nat \<Rightarrow> bool" where
  "isBreakChar char \<longleftrightarrow>
     char = 0x0a \<or> char = 0x20 \<or> char = 0x2e \<or> char = 0x2c \<or> char = 0x3b \<or> char = 0x3a
     \<or> char = 0x21 \<or> char = 0x3f \<or> char = 0x09"

function insertionPoints_loop :: "jsstring \<Rightarrow> nat \<Rightarrow> nat list \<Rightarrow> nat list" where
  "insertionPoints_loop coverText i points =
     (if i < length coverText
      then insertionPoints_loop coverText (i + 1)
             (if isBreakChar (coverText ! i) then points @ [i + 1] else points)
      else points)"
  by pat_completeness auto
termination
  by (relation "measure (\<lambda>(coverText, i, points). length coverText - i)") auto

declare insertionPoints_loop.simps [simp del]

function distribute_inner ::
  "js_host \<Rightarrow> nat list \<Rightarrow> nat \<Rightarrow> nat \<Rightarrow> nat \<Rightarrow> jsstring \<Rightarrow> error + (jsstring \<times> nat)" where
  "distribute_inner h zwcChars chunkSize j zwcIndex result =
     (if j < chunkSize \<and> zwcIndex < length zwcChars
      then (case str_concat h result [zwcChars ! zwcIndex] of
              Inl e \<Rightarrow> Inl e
            | Inr result' \<Rightarrow> distribute_inner h zwcChars chunkSize (j + 1) (zwcIndex + 1) result')
      else Inr (result, zwcIndex))"
  by pat_completeness auto
termination
  by (relation "measure (\<lambda>(h, zwcChars, chunkSize, j, zwcIndex, result). chunkSize - j)") auto

declare distribute_inner.simps [simp del]

function distribute_loop ::
  "js_host \<Rightarrow> jsstring \<Rightarrow> nat list \<Rightarrow> nat list \<Rightarrow> nat \<Rightarrow> nat \<Rightarrow> nat \<Rightarrow> nat \<Rightarrow> jsstring
     \<Rightarrow> error + (jsstring \<times> nat)" where
  "distribute_loop h coverText points zwcChars chunksPerPoint i zwcIndex lastPos result =
     (if i < length points \<and> zwcIndex < length zwcChars
      then (let point = points ! i
            in case str_concat h result (substring coverText lastPos point) of
                 Inl e \<Rightarrow> Inl e
               | Inr result1 \<Rightarrow>
                   (let chunkSize = min chunksPerPoint (length zwcChars - zwcIndex)
                    in case distribute_inner h zwcChars chunkSize 0 zwcIndex result1 of
                         Inl e \<Rightarrow> Inl e
                       | Inr (result2, zwcIndex') \<Rightarrow>
                           distribute_loop h coverText points zwcChars chunksPerPoint (i + 1)
                             zwcIndex' point result2))
      else Inr (result, lastPos))"
  by pat_completeness auto
termination
  by (relation "measure (\<lambda>(h, coverText, points, zwcChars, chunksPerPoint, i, zwcIndex,
                            lastPos, result). length points - i)") auto

declare distribute_loop.simps [simp del]

definition append_payload :: "js_host \<Rightarrow> jsstring \<Rightarrow> jsstring \<Rightarrow> error + jsstring" where
  "append_payload h coverText zwcPayload =
     andThen (str_concat h coverText START_SENTINEL) (\<lambda>s1.
     andThen (str_concat h s1 zwcPayload) (\<lambda>s2.
       str_concat h s2 END_SENTINEL))"

definition distributeZWC :: "js_host \<Rightarrow> jsstring \<Rightarrow> jsstring \<Rightarrow> error + jsstring" where
  "distributeZWC h coverText zwcPayload =
     (let insertionPoints = insertionPoints_loop coverText 0 []
      in if length insertionPoints = 0 then append_payload h coverText zwcPayload
         else
           let zwcChars = zwcPayload;
               chunksPerPoint = nat \<lceil>real (length zwcChars) / real (length insertionPoints)\<rceil>
           in andThen (distribute_loop h coverText insertionPoints zwcChars chunksPerPoint 0 0 0 [])
                (\<lambda>(result, lastPos).
                   andThen (str_concat h result (substring_from coverText lastPos)) (\<lambda>result.
                   andThen (str_concat h START_SENTINEL result) (\<lambda>s1.
                     str_concat h s1 END_SENTINEL))))"

text \<open>
  \<^verbatim>\<open>encodeText\<close>: encode, compress, encrypt when a password is given
  (\<^verbatim>\<open>if (password)\<close> also skips the empty string), frame as
  \<^verbatim>\<open>[1 byte: type][4 bytes: length][data]\<close> in a fresh array of \<^verbatim>\<open>1 + 4 + data.length\<close>
  bytes, code the frame in zero-width characters, and distribute or append them. Arrays
  made from an existing array (\<^verbatim>\<open>new Uint8Array(data)\<close>) are copies of it.
\<close>

definition encodeText ::
  "js_host \<Rightarrow> jsstring \<Rightarrow> jsstring \<Rightarrow> jsstring option \<Rightarrow> bool \<Rightarrow> error + jsstring" where
  "encodeText h coverText secretMessage password distribute =
     andThen (compress h (host_utf8_encode h secretMessage)) (\<lambda>compressed.
     andThen (case password of
                None \<Rightarrow> Inr compressed
              | Some p \<Rightarrow> if p \<noteq> [] then encrypt h compressed p else Inr compressed) (\<lambda>payload.
     andThen (new_Uint8Array_of_length (host_canAllocate h) (1 + 4 + length payload)) (\<lambda>header.
     andThen (setUint32 (header[0 := of_nat PAYLOAD_TYPE_TEXT]) 1 (length payload)) (\<lambda>header.
     andThen (typedArray_set header payload 5) (\<lambda>header.
     andThen (bytesToZWC h header) (\<lambda>zwcPayload.
       if distribute then distributeZWC h coverText zwcPayload
       else append_payload h coverText zwcPayload))))))"

subsection \<open>Extraction\<close>

definition extractZWCChars :: "jsstring \<Rightarrow> jsstring" where
  "extractZWCChars str = filter (\<lambda>char. char \<in> set ZWC_MAP) str"

text \<open>
  The three decoders start alike: they look for the START sentinel, and without one
  return the text with the pattern removed and no payload. With one they keep the
  zero-width characters after it, compute the visible text (first START and first END
  sentinel removed, pattern removed, trimmed), and return no payload when fewer than 20
  zero-width characters follow. The \<^verbatim>\<open>try\<close> block of each decoder is a function of its
  own (\<open>decodeText_try\<close>, \<open>decodeBinary_try\<close>, \<open>decode_try\<close>); whatever it throws is
  rethrown as \<open>DecodingFailed\<close>.
\<close>

record decoded =
  visibleText :: jsstring

record decodedText = decoded +
  secretMessage :: "jsstring option"

record decodedBinary = decoded +
  binaryData :: "bytes option"

datatype payloadKind = TextPayload | BinaryPayload

record decodedAny = decodedBinary +
  payloadType :: "payloadKind option"
  textData :: "jsstring option"

definition visibleText_of :: "jsstring \<Rightarrow> jsstring" where
  "visibleText_of stegaText =
     js_trim (replace_ZWC_PATTERN
                (replace_first (replace_first stegaText START_SENTINEL) END_SENTINEL))"

definition decodeText_try :: "js_host \<Rightarrow> jsstring \<Rightarrow> jsstring option \<Rightarrow> error + jsstring" where
  "decodeText_try h allZWC password =
     andThen (zwcToBytes (substring allZWC 0 20)) (\<lambda>headerBytes.
     andThen (getUint32 headerBytes 1) (\<lambda>dataLength.
       let ptype = unat (headerBytes ! 0)
       in if ptype \<noteq> PAYLOAD_TYPE_TEXT then Inl (PayloadTypeMismatch ptype)
         else
           let dataZWCLength = dataLength * 4;
               totalZWCNeeded = 20 + dataZWCLength
           in if length allZWC < totalZWCNeeded
              then Inl (IncompletePayload totalZWCNeeded (length allZWC))
              else andThen (zwcToBytes (substring allZWC 20 totalZWCNeeded)) (\<lambda>payload.
                   andThen (case password of
                              None \<Rightarrow> Inr payload
                            | Some p \<Rightarrow> if p \<noteq> [] then decrypt h payload p else Inr payload)
                     (\<lambda>compressed.
                   andThen (decompress h compressed) (\<lambda>plain.
                     host_utf8_decode h plain)))))"

definition decodeText :: "js_host \<Rightarrow> jsstring \<Rightarrow> jsstring option \<Rightarrow> error + decodedText" where
  "decodeText h stegaText password =
     (let startIdx = indexOf stegaText START_SENTINEL
      in if startIdx = - 1
         then Inr \<lparr>visibleText = replace_ZWC_PATTERN stegaText, secretMessage = None\<rparr>
         else
           let afterStart = substring_from stegaText (nat startIdx + length START_SENTINEL);
               allZWC = extractZWCChars afterStart;
               visible = visibleText_of stegaText
           in if length allZWC < 20
              then Inr \<lparr>visibleText = visible, secretMessage = None\<rparr>
              else (case decodeText_try h allZWC password of
                      Inl e \<Rightarrow> Inl (DecodingFailed e)
                    | Inr secret \<Rightarrow> Inr \<lparr>visibleText = visible, secretMessage = Some secret\<rparr>))"

definition decodeBinary_try :: "js_host \<Rightarrow> jsstring \<Rightarrow> jsstring option \<Rightarrow> error + bytes" where
  "decodeBinary_try h allZWC password =
     andThen (zwcToBytes (substring allZWC 0 20)) (\<lambda>headerBytes.
     andThen (getUint32 headerBytes 1) (\<lambda>dataLength.
       let ptype = unat (headerBytes ! 0)
       in if ptype \<noteq> PAYLOAD_TYPE_BINARY then Inl (PayloadTypeMismatch ptype)
         else
           let dataZWCLength = dataLength * 4;
               totalZWCNeeded = 20 + dataZWCLength
           in if length allZWC < totalZWCNeeded
              then Inl (IncompletePayload totalZWCNeeded (length allZWC))
              else andThen (zwcToBytes (substring allZWC 20 totalZWCNeeded)) (\<lambda>payload.
                   andThen (case password of
                              None \<Rightarrow> Inr payload
                            | Some p \<Rightarrow> if p \<noteq> [] then decrypt h payload p else Inr payload)
                     (\<lambda>compressed.
                   decompress h compressed))))"

definition decodeBinary :: "js_host \<Rightarrow> jsstring \<Rightarrow> jsstring option \<Rightarrow> error + decodedBinary" where
  "decodeBinary h stegaText password =
     (let startIdx = indexOf stegaText START_SENTINEL
      in if startIdx = - 1
         then Inr \<lparr>visibleText = replace_ZWC_PATTERN stegaText, binaryData = None\<rparr>
         else
           let afterStart = substring_from stegaText (nat startIdx + length START_SENTINEL);
               allZWC = extractZWCChars afterStart;
               visible = visibleText_of stegaText
           in if length allZWC < 20
              then Inr \<lparr>visibleText = visible, binaryData = None\<rparr>
              else (case decodeBinary_try h allZWC password of
                      Inl e \<Rightarrow> Inl (DecodingFailed e)
                    | Inr binary \<Rightarrow> Inr \<lparr>visibleText = visible, binaryData = Some binary\<rparr>))"

definition decode_try ::
  "js_host \<Rightarrow> jsstring \<Rightarrow> jsstring \<Rightarrow> jsstring option \<Rightarrow> error + decodedAny" where
  "decode_try h visible allZWC password =
     andThen (zwcToBytes (substring allZWC 0 20)) (\<lambda>headerBytes.
     andThen (getUint32 headerBytes 1) (\<lambda>dataLength.
       let ptype = unat (headerBytes ! 0);
           dataZWCLength = dataLength * 4;
           totalZWCNeeded = 20 + dataZWCLength
       in if length allZWC < totalZWCNeeded
          then Inl (IncompletePayload totalZWCNeeded (length allZWC))
          else andThen (zwcToBytes (substring allZWC 20 totalZWCNeeded)) (\<lambda>payload.
               andThen (case password of
                          None \<Rightarrow> Inr payload
                        | Some p \<Rightarrow> if p \<noteq> [] then decrypt h payload p else Inr payload)
                 (\<lambda>compressed.
               andThen (decompress h compressed) (\<lambda>plain.
                 if ptype = PAYLOAD_TYPE_TEXT
                 then andThen (host_utf8_decode h plain) (\<lambda>text.
                        Inr \<lparr>visibleText = visible, binaryData = None,
                             payloadType = Some TextPayload, textData = Some text\<rparr>)
                 else if ptype = PAYLOAD_TYPE_BINARY
                 then Inr \<lparr>visibleText = visible, binaryData = Some plain,
                           payloadType = Some BinaryPayload, textData = None\<rparr>
                 else Inl (UnknownPayloadType ptype))))))"

definition decode :: "js_host \<Rightarrow> jsstring \<Rightarrow> jsstring option \<Rightarrow> error + decodedAny" where
  "decode h stegaText password =
     (let startIdx = indexOf stegaText START_SENTINEL
      in if startIdx = - 1
         then Inr \<lparr>visibleText = replace_ZWC_PATTERN stegaText, binaryData = None,
                    payloadType = None, textData = None\<rparr>
         else
           let afterStart = substring_from stegaText (nat startIdx + length START_SENTINEL);
               allZWC = extractZWCChars afterStart;
               visible = visibleText_of stegaText
           in if length allZWC < 20
              then Inr \<lparr>visibleText = visible, binaryData = None, payloadType = None,
                         textData = None\<rparr>
              else (case decode_try h visible allZWC password of
                      Inl e \<Rightarrow> Inl (DecodingFailed e)
                    | Inr result \<Rightarrow> Inr result))"

text \<open>
  A toy host for evaluating the engine on concrete inputs: it never refuses an
  allocation, builds strings up to \<open>2^53 - 1\<close> code units, codes ASCII text one byte
  per character, hands written buffers back unchanged in one chunk, and its cipher adds
  the first key byte to every byte.
\<close>

definition plainHost :: js_host where
  "plainHost =
     \<lparr>host_canAllocate = (\<lambda>n. True),
      host_maxStringLength = 9007199254740991,
      host_utf8_encode = map of_nat,
      host_utf8_decode = (\<lambda>bs. Inr (map unat bs)),
      host_deflate = (\<lambda>buffer. Inr [buffer]),
      host_inflate = (\<lambda>buffer. Inr [buffer]),
      host_cryptoAvailable = True,
      host_randomSalt = (\<lambda>i. 7),
      host_randomCounter = (\<lambda>i. 9),
      host_pbkdf2 = (\<lambda>passwordBytes salt iterations. Inr passwordBytes),
      host_aesCtrEncrypt = (\<lambda>key counter plain. Inr (map (\<lambda>b. b + hd key) plain)),
      host_aesCtrDecrypt = (\<lambda>key counter cipher. Inr (map (\<lambda>b. b - hd key) cipher))\<rparr>"

section \<open>Bit/byte marshalling: the round trip\<close>

lemma bytesToBits_inner_length [simp]:
  "length (bytesToBits_inner byte i j bits) = length bits"
proof (induction byte i j bits rule: bytesToBits_inner.induct)
  case (1 byte i j bits)
  then show ?case by (subst bytesToBits_inner.simps) simp
qed

lemma bytesToBits_inner_nth:
  "k < length bits \<Longrightarrow>
   bytesToBits_inner byte i j bits ! k =
     (if i * 8 + j \<le> k \<and> k < i * 8 + 8 then drop_bit (k - i * 8) byte AND 1 else bits ! k)"
proof (induction byte i j bits rule: bytesToBits_inner.induct)
  case (1 byte i j bits)
  show ?case
  proof (cases "j < 8")
    case True
    have "bytesToBits_inner byte i j bits ! k =
          bytesToBits_inner byte i (j + 1) (bits[i * 8 + j := drop_bit j byte AND 1]) ! k"
      using True by (subst bytesToBits_inner.simps) simp
    also have "\<dots> = (if i * 8 + (j + 1) \<le> k \<and> k < i * 8 + 8
                      then drop_bit (k - i * 8) byte AND 1
                      else bits[i * 8 + j := drop_bit j byte AND 1] ! k)"
      using "1.IH" [OF True] "1.prems" by simp
    also have "\<dots> = (if i * 8 + j \<le> k \<and> k < i * 8 + 8
                      then drop_bit (k - i * 8) byte AND 1 else bits ! k)"
    proof (cases "k = i * 8 + j")
      case True
      then have "k - i * 8 = j" by simp
      with True \<open>j < 8\<close> "1.prems" show ?thesis by simp
    next
      case False
      with "1.prems" show ?thesis by (auto simp: nth_list_update)
    qed
    finally show ?thesis .
  next
    case False
    then show ?thesis by (subst bytesToBits_inner.simps) auto
  qed
qed

lemma bytesToBits_outer_length [simp]:
  "length (bytesToBits_outer bytes i bits) = length bits"
proof (induction bytes i bits rule: bytesToBits_outer.induct)
  case (1 bytes i bits)
  then show ?case by (subst bytesToBits_outer.simps) simp
qed

lemma bytesToBits_outer_nth:
  "k < length bits \<Longrightarrow>
   bytesToBits_outer bytes i bits ! k =
     (if i * 8 \<le> k \<and> k < length bytes * 8
      then drop_bit (k mod 8) (bytes ! (k div 8)) AND 1 else bits ! k)"
proof (induction bytes i bits rule: bytesToBits_outer.induct)
  case (1 bytes i bits)
  show ?case
  proof (cases "i < length bytes")
    case True
    have "bytesToBits_outer bytes i bits ! k =
          bytesToBits_outer bytes (i + 1) (bytesToBits_inner (bytes ! i) i 0 bits) ! k"
      using True by (subst bytesToBits_outer.simps) simp
    also have "\<dots> = (if (i + 1) * 8 \<le> k \<and> k < length bytes * 8
                      then drop_bit (k mod 8) (bytes ! (k div 8)) AND 1
                      else bytesToBits_inner (bytes ! i) i 0 bits ! k)"
      using "1.IH" [OF True] "1.prems" by simp
    also have "\<dots> = (if i * 8 \<le> k \<and> k < length bytes * 8
                      then drop_bit (k mod 8) (bytes ! (k div 8)) AND 1 else bits ! k)"
    proof (cases "i * 8 \<le> k \<and> k < i * 8 + 8")
      case True
      have d: "k div 8 = i"
        using True by (intro div_nat_eqI) simp_all
      have m: "k mod 8 = k - i * 8"
        using d by (simp add: modulo_nat_def)
      have inner: "bytesToBits_inner (bytes ! i) i 0 bits ! k = drop_bit (k - i * 8) (bytes ! i) AND 1"
        using True "1.prems" by (simp add: bytesToBits_inner_nth)
      have lt: "k < length bytes * 8" and nle: "\<not> (i + 1) * 8 \<le> k"
        using True \<open>i < length bytes\<close> by simp_all
      show ?thesis
        using True by (simp only: inner lt nle d m if_True if_False simp_thms)
    next
      case False
      have "\<not> (i * 8 + 0 \<le> k \<and> k < i * 8 + 8)"
        using False by simp
      then have inner: "bytesToBits_inner (bytes ! i) i 0 bits ! k = bits ! k"
        using "1.prems" by (simp only: bytesToBits_inner_nth if_False)
      have "(i + 1) * 8 \<le> k \<longleftrightarrow> i * 8 \<le> k"
        using False by arith
      then show ?thesis
        by (simp only: inner)
    qed
    finally show ?thesis .
  next
    case False
    then show ?thesis by (subst bytesToBits_outer.simps) auto
  qed
qed

lemma bytesToBits_length: "length (bytesToBits bytes) = length bytes * 8"
  by (simp add: bytesToBits_def)

lemma bytesToBits_nth:
  "k < length bytes * 8 \<Longrightarrow>
   bytesToBits bytes ! k = drop_bit (k mod 8) (bytes ! (k div 8)) AND 1"
  by (simp add: bytesToBits_def bytesToBits_outer_nth)

lemma bit_or_push_bit_and_1:
  "bit (byte OR push_bit j (w AND 1) :: byte) n \<longleftrightarrow> bit byte n \<or> (n = j \<and> j < 8 \<and> bit w 0)"
  by (auto simp: bit_simps)

lemma bitsToBytes_inner_bit:
  "bit (bitsToBytes_inner bits i j byte) n \<longleftrightarrow>
     bit byte n \<or> (j \<le> n \<and> n < 8 \<and> i * 8 + n < length bits \<and> bit (bits ! (i * 8 + n)) 0)"
proof (induction bits i j byte rule: bitsToBytes_inner.induct)
  case (1 bits i j byte)
  show ?case
  proof (cases "j < 8")
    case True
    define byte' where "byte' = (let bitIndex = i * 8 + j
              in if bitIndex < length bits
                 then byte OR push_bit j (bits ! bitIndex AND 1)
                 else byte)"
    have step: "bitsToBytes_inner bits i j byte = bitsToBytes_inner bits i (j + 1) byte'"
      using True unfolding byte'_def by (subst bitsToBytes_inner.simps) simp
    have b': "bit byte' n \<longleftrightarrow>
        bit byte n \<or> (n = j \<and> i * 8 + n < length bits \<and> bit (bits ! (i * 8 + n)) 0)"
    proof (cases "i * 8 + j < length bits")
      case True
      then have "byte' = byte OR push_bit j (bits ! (i * 8 + j) AND 1)"
        by (simp add: byte'_def)
      then show ?thesis
        using True \<open>j < 8\<close> by (auto simp only: bit_or_push_bit_and_1)
    next
      case False
      then have "byte' = byte" by (simp add: byte'_def)
      with False show ?thesis by auto
    qed
    have "bit (bitsToBytes_inner bits i (j + 1) byte') n \<longleftrightarrow>
        bit byte' n \<or> (j + 1 \<le> n \<and> n < 8 \<and> i * 8 + n < length bits \<and> bit (bits ! (i * 8 + n)) 0)"
      using "1.IH" [OF True] unfolding byte'_def by simp
    then show ?thesis
      unfolding step b' using True by (cases "n = j") auto
  next
    case False
    then show ?thesis by (subst bitsToBytes_inner.simps) auto
  qed
qed

lemma bitsToBytes_outer_length [simp]:
  "length (bitsToBytes_outer bits byteCount i out) = length out"
proof (induction bits byteCount i out rule: bitsToBytes_outer.induct)
  case (1 bits byteCount i out)
  then show ?case by (subst bitsToBytes_outer.simps) simp
qed

lemma bitsToBytes_outer_nth:
  "k < length out \<Longrightarrow>
   bitsToBytes_outer bits byteCount i out ! k =
     (if i \<le> k \<and> k < byteCount then bitsToBytes_inner bits k 0 0 else out ! k)"
proof (induction bits byteCount i out rule: bitsToBytes_outer.induct)
  case (1 bits byteCount i out)
  show ?case
  proof (cases "i < byteCount")
    case True
    have "bitsToBytes_outer bits byteCount i out ! k =
          bitsToBytes_outer bits byteCount (i + 1) (out[i := bitsToBytes_inner bits i 0 0]) ! k"
      using True by (subst bitsToBytes_outer.simps) simp
    also have "\<dots> = (if i + 1 \<le> k \<and> k < byteCount then bitsToBytes_inner bits k 0 0
                      else out[i := bitsToBytes_inner bits i 0 0] ! k)"
      using "1.IH" [OF True] "1.prems" by simp
    also have "\<dots> = (if i \<le> k \<and> k < byteCount then bitsToBytes_inner bits k 0 0 else out ! k)"
      using "1.prems" True by (cases "k = i") (auto simp: nth_list_update)
    finally show ?thesis .
  next
    case False
    then show ?thesis by (subst bitsToBytes_outer.simps) auto
  qed
qed

lemma bitsToBytes_length: "length (bitsToBytes bits) = length bits div 8"
  by (simp add: bitsToBytes_def Let_def)

lemma bitsToBytes_nth:
  "k < length bits div 8 \<Longrightarrow> bitsToBytes bits ! k = bitsToBytes_inner bits k 0 0"
  by (simp add: bitsToBytes_def Let_def bitsToBytes_outer_nth)

lemma bit_byte_ge_8: "bit (w :: byte) n \<Longrightarrow> n < 8"
  using bit_imp_le_length [of w n] by simp

text \<open>
  Claim C7. For every byte sequence \<open>x\<close>, \<open>bitsToBytes (bytesToBits x) = x\<close>: the
  bits of each byte are written least-significant first and read back in the same order.
\<close>

theorem bitsToBytes_bytesToBits: "bitsToBytes (bytesToBits x) = x"
proof (rule nth_equalityI)
  show "length (bitsToBytes (bytesToBits x)) = length x"
    by (simp add: bitsToBytes_length bytesToBits_length)
next
  fix k assume "k < length (bitsToBytes (bytesToBits x))"
  then have k: "k < length x"
    by (simp add: bitsToBytes_length bytesToBits_length)
  have "bitsToBytes (bytesToBits x) ! k = bitsToBytes_inner (bytesToBits x) k 0 0"
    using k by (simp add: bitsToBytes_nth bytesToBits_length)
  also have "\<dots> = x ! k"
  proof (rule bit_eqI)
    fix n
    show "bit (bitsToBytes_inner (bytesToBits x) k 0 0) n \<longleftrightarrow> bit (x ! k) n"
    proof (cases "n < 8")
      case True
      with k have idx: "k * 8 + n < length x * 8" by simp
      from True have dm: "(k * 8 + n) div 8 = k" "(k * 8 + n) mod 8 = n" by simp_all
      show ?thesis
        using True idx
        by (simp add: bitsToBytes_inner_bit bytesToBits_length bytesToBits_nth dm bit_simps)
    next
      case False
      then show ?thesis
        using bit_byte_ge_8 [of "x ! k" n] by (auto simp: bitsToBytes_inner_bit)
    qed
  qed
  finally show "bitsToBytes (bytesToBits x) ! k = x ! k" .
qed

section \<open>Text capacity\<close>

lemma estimatedZWC_le_length: "\<lfloor>real n * 0.1\<rfloor> \<le> int n"
proof -
  have "real n * 0.1 \<le> real n" by simp
  then have "\<lfloor>real n * 0.1\<rfloor> \<le> \<lfloor>real n\<rfloor>" by (rule floor_mono)
  then show ?thesis by simp
qed

text \<open>
  Claim C6, as stated: the capacity is \<open>(max \<lfloor>0.1 * |c|\<rfloor> |c| - 26) div 4\<close>. The source
  clamps the difference at zero first, so for a one-character cover the capacity is 0,
  while the stated expression is negative (whether the division floors or truncates).
\<close>

theorem calculateTextCapacity_unclamped_counterexample:
  "calculateTextCapacity [97] = 0 \<and>
   (max \<lfloor>real (length [97::nat]) * 0.1\<rfloor> (int (length [97::nat])) - 26) div 4 = - 7 \<and>
   calculateTextCapacity [97] \<noteq>
     (max \<lfloor>real (length [97::nat]) * 0.1\<rfloor> (int (length [97::nat])) - 26) div 4"
  by (simp add: calculateTextCapacity_def)

text \<open>
  Claim C6, amended: for every cover text \<open>c\<close>, the capacity is
  \<open>max 0 (max \<lfloor>0.1 * |c|\<rfloor> |c| - 26) div 4\<close>, which is \<open>max 0 (|c| - 26) div 4\<close>: the
  floor of \<open>(|c| - 26) / 4\<close> from 26 code units on, and 0 below.
\<close>

theorem calculateTextCapacity_clamped:
  "calculateTextCapacity c =
     max 0 (max \<lfloor>real (length c) * 0.1\<rfloor> (int (length c)) - 26) div 4 \<and>
   calculateTextCapacity c = max 0 (int (length c) - 26) div 4"
  using estimatedZWC_le_length [of "length c"]
  by (simp add: calculateTextCapacity_def Let_def max_def)

section \<open>Pixel LSB engine: capacity and the alpha channel\<close>

lemma floor_three_quarters: "nat \<lfloor>(real n / 4) * 3\<rfloor> = 3 * n div 4"
proof -
  have "(real n / 4) * 3 = real_of_int (int (3 * n)) / real_of_int 4" by simp
  then have "\<lfloor>(real n / 4) * 3\<rfloor> = int (3 * n) div 4"
    by (simp only: floor_divide_of_int_eq)
  then show ?thesis by (simp add: nat_div_distrib)
qed

lemma embedLSB_loop_length [simp]:
  "length (embedLSB_loop imageData messageBits bitDepth lsbMask i result bitIndex) = length result"
proof (induction imageData messageBits bitDepth lsbMask i result bitIndex rule: embedLSB_loop.induct)
  case (1 imageData messageBits bitDepth lsbMask i result bitIndex)
  show ?case
  proof (cases "i < length imageData \<and> bitIndex < length messageBits")
    case True
    note guard = True
    show ?thesis
    proof (cases "i mod 4 = 3")
      case True
      with guard "1.IH"(1) show ?thesis
        by (subst embedLSB_loop.simps) simp
    next
      case False
      obtain v bi' where inner: "embedLSB_inner messageBits bitDepth 0 0 bitIndex = (v, bi')"
        by (cases "embedLSB_inner messageBits bitDepth 0 0 bitIndex")
      from "1.IH"(2) [OF guard False inner [symmetric]] guard False inner show ?thesis
        by (subst embedLSB_loop.simps) simp
    qed
  next
    case False
    then show ?thesis by (subst embedLSB_loop.simps) auto
  qed
qed

lemma embedLSB_loop_alpha:
  "k mod 4 = 3 \<Longrightarrow>
   embedLSB_loop imageData messageBits bitDepth lsbMask i result bitIndex ! k = result ! k"
proof (induction imageData messageBits bitDepth lsbMask i result bitIndex rule: embedLSB_loop.induct)
  case (1 imageData messageBits bitDepth lsbMask i result bitIndex)
  show ?case
  proof (cases "i < length imageData \<and> bitIndex < length messageBits")
    case True
    note guard = True
    show ?thesis
    proof (cases "i mod 4 = 3")
      case True
      with guard "1.IH"(1) "1.prems" show ?thesis
        by (subst embedLSB_loop.simps) simp
    next
      case False
      obtain v bi' where inner: "embedLSB_inner messageBits bitDepth 0 0 bitIndex = (v, bi')"
        by (cases "embedLSB_inner messageBits bitDepth 0 0 bitIndex")
      from False "1.prems" have "k \<noteq> i" by auto
      with "1.IH"(2) [OF guard False inner [symmetric] "1.prems"] guard False inner show ?thesis
        by (subst embedLSB_loop.simps) simp
    qed
  next
    case False
    then show ?thesis by (subst embedLSB_loop.simps) auto
  qed
qed

lemma embedLSB_cases:
  assumes "1 \<le> d" "d \<le> 4"
  shows "embedLSB I b d =
     (if 3 * length I div 4 * d < length b
      then Inl (MessageTooLarge (length b) (3 * length I div 4 * d))
      else Inr (embedLSB_loop I b d (push_bit d 0xFF) 0 I 0))"
  unfolding embedLSB_def Let_def floor_three_quarters using assms by simp

lemma whole_pixels:
  assumes "n mod 4 = 0"
  shows "3 * n div 4 = n div 4 * (3::nat)"
proof -
  from assms obtain q where "n = 4 * q" by (auto simp: mod_eq_0_iff_dvd)
  then show ?thesis by simp
qed

lemma embedLSB_inner_snd:
  "snd (embedLSB_inner messageBits bitDepth j bitsToEmbed bitIndex) =
     (if bitIndex < length messageBits then min (length messageBits) (bitIndex + (bitDepth - j))
      else bitIndex)"
proof (induction messageBits bitDepth j bitsToEmbed bitIndex rule: embedLSB_inner.induct)
  case (1 messageBits bitDepth j bitsToEmbed bitIndex)
  show ?case
  proof (cases "j < bitDepth \<and> bitIndex < length messageBits")
    case True
    then show ?thesis
      using "1.IH" [OF True refl]
      by (subst embedLSB_inner.simps) (auto simp: Let_def)
  next
    case False
    then show ?thesis
      by (subst embedLSB_inner.simps) auto
  qed
qed

lemma channel_count_alpha: "i mod 4 = 3 \<Longrightarrow> Suc i - Suc i div 4 = i - i div 4"
  by (simp add: div_Suc mod_Suc)

lemma channel_count_colour: "i mod 4 \<noteq> 3 \<Longrightarrow> Suc i - Suc i div 4 = Suc (i - i div 4)"
proof -
  assume "i mod 4 \<noteq> 3"
  then have "Suc i div 4 = i div 4" by (simp add: div_Suc mod_Suc)
  moreover have "i div 4 \<le> i" by simp
  ultimately show ?thesis by simp
qed

lemma embedLSB_loop_before:
  "k < i \<Longrightarrow>
   embedLSB_loop imageData messageBits bitDepth lsbMask i result bitIndex ! k = result ! k"
proof (induction imageData messageBits bitDepth lsbMask i result bitIndex rule: embedLSB_loop.induct)
  case (1 imageData messageBits bitDepth lsbMask i result bitIndex)
  show ?case
  proof (cases "i < length imageData \<and> bitIndex < length messageBits")
    case True
    note guard = True
    from "1.prems" have lt: "k < i + 1" and ne: "k \<noteq> i" by simp_all
    show ?thesis
    proof (cases "i mod 4 = 3")
      case True
      with guard "1.IH"(1) [OF guard True lt] show ?thesis
        by (subst embedLSB_loop.simps) simp
    next
      case False
      obtain v bi' where inner: "embedLSB_inner messageBits bitDepth 0 0 bitIndex = (v, bi')"
        by (cases "embedLSB_inner messageBits bitDepth 0 0 bitIndex")
      from "1.IH"(2) [OF guard False inner [symmetric] lt] guard False inner ne show ?thesis
        by (subst embedLSB_loop.simps) simp
    qed
  next
    case False
    then show ?thesis by (subst embedLSB_loop.simps) auto
  qed
qed

lemma embedLSB_loop_written:
  assumes "i \<le> k" and "k < length imageData" and "k mod 4 \<noteq> 3"
    and "length result = length imageData"
    and "bitIndex + ((k - k div 4) - (i - i div 4)) * bitDepth < length messageBits"
  shows "embedLSB_loop imageData messageBits bitDepth lsbMask i result bitIndex ! k =
           ucast ((ucast (result ! k) AND lsbMask) OR
                  fst (embedLSB_inner messageBits bitDepth 0 0
                         (bitIndex + ((k - k div 4) - (i - i div 4)) * bitDepth)))"
  using assms
proof (induction imageData messageBits bitDepth lsbMask i result bitIndex rule: embedLSB_loop.induct)
  case (1 imageData messageBits bitDepth lsbMask i result bitIndex)
  define a where "a = k - k div 4"
  define b0 where "b0 = i - i div 4"
  have start: "bitIndex + (a - b0) * bitDepth < length messageBits"
    using "1.prems"(5) by (simp only: a_def b0_def)
  have guard: "i < length imageData \<and> bitIndex < length messageBits"
    using "1.prems"(1,2) start by simp
  show ?case
  proof (cases "i mod 4 = 3")
    case True
    with "1.prems"(1,3) have lt: "i + 1 \<le> k" by (cases "k = i") auto
    have cnt: "i + 1 - (i + 1) div 4 = b0"
      using channel_count_alpha [OF True] by (simp add: b0_def)
    have s': "bitIndex + ((k - k div 4) - (i + 1 - (i + 1) div 4)) * bitDepth < length messageBits"
      using start by (simp only: cnt a_def)
    have "embedLSB_loop imageData messageBits bitDepth lsbMask i result bitIndex =
          embedLSB_loop imageData messageBits bitDepth lsbMask (i + 1) result bitIndex"
      using guard True by (subst embedLSB_loop.simps) simp
    with "1.IH"(1) [OF guard True lt "1.prems"(2,3,4) s'] show ?thesis
      by (simp only: cnt a_def [symmetric] b0_def [symmetric])
  next
    case False
    obtain v bi' where inner: "embedLSB_inner messageBits bitDepth 0 0 bitIndex = (v, bi')"
      by (cases "embedLSB_inner messageBits bitDepth 0 0 bitIndex")
    have bi': "bi' = min (length messageBits) (bitIndex + bitDepth)"
      using embedLSB_inner_snd [of messageBits bitDepth 0 0 bitIndex] inner guard by simp
    define result' where
      "result' = result[i := ucast ((ucast (result ! i) AND lsbMask) OR v)]"
    have step: "embedLSB_loop imageData messageBits bitDepth lsbMask i result bitIndex =
          embedLSB_loop imageData messageBits bitDepth lsbMask (i + 1) result' bi'"
      using guard False inner by (subst embedLSB_loop.simps) (simp add: result'_def)
    have cnt: "i + 1 - (i + 1) div 4 = Suc b0"
      using channel_count_colour [OF False] by (simp add: b0_def)
    show ?thesis
    proof (cases "k = i")
      case True
      then have "a - b0 = 0" by (simp add: a_def b0_def)
      then have s0: "bitIndex + ((k - k div 4) - (i - i div 4)) * bitDepth = bitIndex"
        by (simp add: a_def b0_def)
      have "embedLSB_loop imageData messageBits bitDepth lsbMask (i + 1) result' bi' ! k = result' ! k"
        using True by (intro embedLSB_loop_before) simp
      also have "\<dots> = ucast ((ucast (result ! k) AND lsbMask) OR v)"
        using True "1.prems"(2,4) by (simp add: result'_def)
      finally show ?thesis
        unfolding step s0 using inner by simp
    next
      case False
      with "1.prems"(1) have lt: "i + 1 \<le> k" by simp
      have mono: "b0 < a"
      proof (rule ccontr)
        assume "\<not> b0 < a"
        then have "a - b0 = 0" by simp
        have "Suc i - Suc i div 4 \<le> k - k div 4"
        proof -
          have "Suc i \<le> k" using lt by simp
          then have "Suc i div 4 \<le> k div 4" by (rule div_le_mono)
          have "k - k div 4 = (k div 4) * 3 + k mod 4"
            using div_mult_mod_eq [of k 4] by linarith
          moreover have "Suc i - Suc i div 4 = (Suc i div 4) * 3 + Suc i mod 4"
            using div_mult_mod_eq [of "Suc i" 4] by linarith
          moreover have "(Suc i div 4) * 3 + Suc i mod 4 \<le> (k div 4) * 3 + k mod 4"
          proof (cases "Suc i div 4 = k div 4")
            case True
            have "Suc i mod 4 \<le> k mod 4"
              using \<open>Suc i \<le> k\<close> True div_mult_mod_eq [of k 4] div_mult_mod_eq [of "Suc i" 4]
              by linarith
            with True show ?thesis by simp
          next
            case False
            with \<open>Suc i div 4 \<le> k div 4\<close> have "Suc (Suc i div 4) \<le> k div 4" by simp
            then have "(Suc i div 4) * 3 + 3 \<le> (k div 4) * 3" by simp
            moreover have "Suc i mod 4 \<le> 3" by simp
            ultimately show ?thesis by linarith
          qed
          ultimately show ?thesis by simp
        qed
        with cnt have "Suc b0 \<le> a" by (simp add: a_def)
        with \<open>\<not> b0 < a\<close> show False by simp
      qed
      then have "a - b0 = Suc (a - Suc b0)" by simp
      then have split: "(a - b0) * bitDepth = bitDepth + (a - Suc b0) * bitDepth"
        by simp
      have fits: "bitIndex + bitDepth \<le> length messageBits"
        using start split by simp
      then have b: "bi' = bitIndex + bitDepth" by (simp add: bi')
      have same: "bi' + (a - Suc b0) * bitDepth = bitIndex + (a - b0) * bitDepth"
        using split b by simp
      have s': "bi' + ((k - k div 4) - (i + 1 - (i + 1) div 4)) * bitDepth < length messageBits"
        using start same by (simp only: cnt a_def [symmetric])
      have len': "length result' = length imageData" using "1.prems"(4) by (simp add: result'_def)
      have at_k: "result' ! k = result ! k" using False by (simp add: result'_def)
      have idx: "bi' + ((k - k div 4) - (i + 1 - (i + 1) div 4)) * bitDepth =
                 bitIndex + ((k - k div 4) - (i - i div 4)) * bitDepth"
        using same by (simp only: cnt a_def b0_def)
      note IH = "1.IH"(2) [OF guard \<open>i mod 4 \<noteq> 3\<close> inner [symmetric] lt "1.prems"(2,3)
          len' [unfolded result'_def] s']
      have "embedLSB_loop imageData messageBits bitDepth lsbMask (i + 1) result' bi' ! k =
            ucast ((ucast (result' ! k) AND lsbMask) OR
                   fst (embedLSB_inner messageBits bitDepth 0 0
                          (bi' + ((k - k div 4) - (i + 1 - (i + 1) div 4)) * bitDepth)))"
        using IH by (simp only: result'_def)
      then show ?thesis
        unfolding step idx at_k .
    qed
  qed
qed

lemma bit_push_bit_message_bit:
  "bit (push_bit j (ucast (x AND (1 :: byte))) :: 32 word) n \<longleftrightarrow> n = j \<and> j < 32 \<and> bit x 0"
  by (auto simp: bit_simps)

lemma embedLSB_inner_bit:
  "bit (fst (embedLSB_inner messageBits bitDepth j v s)) n \<longleftrightarrow>
     bit v n \<or> (j \<le> n \<and> n < bitDepth \<and> n < 32 \<and> s + (n - j) < length messageBits \<and>
                bit (messageBits ! (s + (n - j))) 0)"
proof (induction messageBits bitDepth j v s rule: embedLSB_inner.induct)
  case (1 messageBits bitDepth j v s)
  show ?case
  proof (cases "j < bitDepth \<and> s < length messageBits")
    case True
    define v' where "v' = v OR push_bit j (ucast (messageBits ! s AND 1))"
    have step: "embedLSB_inner messageBits bitDepth j v s =
                embedLSB_inner messageBits bitDepth (j + 1) v' (s + 1)"
      using True by (subst embedLSB_inner.simps) (simp add: Let_def v'_def)
    have v': "bit v' n \<longleftrightarrow> bit v n \<or> (n = j \<and> j < 32 \<and> bit (messageBits ! s) 0)"
      unfolding v'_def bit_or_iff bit_push_bit_message_bit ..
    have IH: "bit (fst (embedLSB_inner messageBits bitDepth (j + 1) v' (s + 1))) n \<longleftrightarrow>
        bit v' n \<or> (j + 1 \<le> n \<and> n < bitDepth \<and> n < 32 \<and> s + 1 + (n - (j + 1)) < length messageBits \<and>
                bit (messageBits ! (s + 1 + (n - (j + 1)))) 0)"
      using "1.IH" [OF True refl] by (simp only: v'_def)
    show ?thesis
    proof (cases "n = j")
      case True
      with \<open>j < bitDepth \<and> s < length messageBits\<close> show ?thesis
        unfolding step IH v' by auto
    next
      case False
      have "j + 1 \<le> n \<longleftrightarrow> j \<le> n" using False by auto
      moreover have "j \<le> n \<Longrightarrow> s + 1 + (n - (j + 1)) = s + (n - j)" using False by auto
      ultimately show ?thesis
        unfolding step IH v' using False by auto
    qed
  next
    case False
    then show ?thesis
      by (subst embedLSB_inner.simps) auto
  qed
qed

lemma bit_written_byte:
  assumes "n < 8"
  shows "bit (ucast ((ucast (x :: byte) AND push_bit d (0xFF :: 32 word)) OR val) :: byte) n \<longleftrightarrow>
           (bit x n \<and> d \<le> n) \<or> bit val n"
proof -
  have ff: "(0xFF :: 32 word) = mask 8" by (simp add: mask_eq_exp_minus_1)
  show ?thesis
    using assms unfolding ff by (auto simp: bit_simps dest: bit_imp_le_length)
qed

lemma colour_index:
  fixes c :: nat
  shows "(c + c div 3) div 4 = c div 3" "(c + c div 3) mod 4 = c mod 3"
proof -
  have eq: "c + c div 3 = 4 * (c div 3) + c mod 3"
    using div_mult_mod_eq [of c 3] by linarith
  have lt: "c mod 3 < 4" using mod_less_divisor [of 3 c] by linarith
  show "(c + c div 3) div 4 = c div 3"
    unfolding eq using lt by simp
  show "(c + c div 3) mod 4 = c mod 3"
    unfolding eq using lt by simp
qed

lemma colour_index_count: "(c + c div 3) - (c + c div 3) div 4 = (c :: nat)"
  by (simp add: colour_index)

lemma colour_index_bound:
  assumes "c < n div 4 * 3"
  shows "c + c div 3 < (n :: nat)"
proof -
  from assms have q: "c div 3 < n div 4" by (simp add: less_mult_imp_div_less)
  have "c + c div 3 = 4 * (c div 3) + c mod 3"
    using div_mult_mod_eq [of c 3] by linarith
  also have "\<dots> < 4 * (c div 3) + 4" using mod_less_divisor [of 3 c] by linarith
  also have "\<dots> \<le> 4 * (n div 4)" using q by simp
  also have "\<dots> \<le> n" by simp
  finally show ?thesis .
qed

lemma embedLSB_bits_placed:
  assumes d: "1 \<le> d" "d \<le> 4" and fits: "length b \<le> length I div 4 * 3 * d"
    and k: "k < length b"
  shows "bit (embedLSB_loop I b d (push_bit d 0xFF) 0 I 0 ! (k div d + k div d div 3)) (k mod d)
           \<longleftrightarrow> bit (b ! k) 0"
proof -
  define c where "c = k div d"
  define j where "j = c + c div 3"
  define n where "n = k mod d"
  have dpos: "0 < d" using d by simp
  have k_eq: "c * d + n = k" by (simp add: c_def n_def)
  have n_lt: "n < d" unfolding n_def using dpos by simp
  then have n8: "n < 8" and n32: "n < 32" using d by simp_all
  have cd: "c * d < length b" using k k_eq by linarith
  have "c * d < length I div 4 * 3 * d" using cd fits by linarith
  then have c_lt: "c < length I div 4 * 3" by simp
  have j_lt: "j < length I" unfolding j_def using c_lt by (rule colour_index_bound)
  have j_mod: "j mod 4 \<noteq> 3"
    unfolding j_def colour_index using mod_less_divisor [of 3 c] by linarith
  have j_cnt: "j - j div 4 = c" unfolding j_def by (rule colour_index_count)
  have start: "0 + ((j - j div 4) - (0 - 0 div 4)) * d = c * d"
    by (simp add: j_cnt)
  have "embedLSB_loop I b d (push_bit d 0xFF) 0 I 0 ! j =
        ucast ((ucast (I ! j) AND push_bit d 0xFF) OR
               fst (embedLSB_inner b d 0 0 (0 + ((j - j div 4) - (0 - 0 div 4)) * d)))"
    using j_lt j_mod cd by (intro embedLSB_loop_written) (simp_all add: j_cnt)
  then have out: "embedLSB_loop I b d (push_bit d 0xFF) 0 I 0 ! j =
        ucast ((ucast (I ! j) AND push_bit d 0xFF) OR fst (embedLSB_inner b d 0 0 (c * d)))"
    by (simp only: start)
  have "bit (embedLSB_loop I b d (push_bit d 0xFF) 0 I 0 ! j) n \<longleftrightarrow>
        (bit (I ! j) n \<and> d \<le> n) \<or> bit (fst (embedLSB_inner b d 0 0 (c * d))) n"
    unfolding out using n8 by (rule bit_written_byte)
  also have "\<dots> \<longleftrightarrow> bit (fst (embedLSB_inner b d 0 0 (c * d))) n"
    using n_lt by simp
  also have "\<dots> \<longleftrightarrow> bit (b ! k) 0"
    unfolding embedLSB_inner_bit using n_lt n32 k k_eq by simp
  finally show ?thesis
    by (simp only: j_def c_def n_def)
qed

text \<open>
  Claim C3. For an RGBA buffer \<open>I\<close> (four bytes per pixel, so its length is a multiple of
  four) and a bit depth \<open>d\<close> in 1..4, \<open>embedLSB\<close> throws the capacity error exactly when
  the bit stream is longer than \<open>floor(|I|/4) * 3 * d\<close>. A stream of at most that many bits
  is embedded: a buffer of the same size is returned in which, for every \<open>k\<close>, the low bit
  of stream entry \<open>k\<close> is bit \<open>k mod d\<close> of the colour byte number \<open>k div d\<close> (colour byte
  number \<open>c\<close> has index \<open>c + c div 3\<close>, the alpha bytes being skipped).
\<close>

theorem embedLSB_capacity_error_iff:
  assumes "1 \<le> d" and "d \<le> 4" and "length I mod 4 = 0"
  shows "((\<exists>required available. embedLSB I b d = Inl (MessageTooLarge required available))
            \<longleftrightarrow> length I div 4 * 3 * d < length b) \<and>
         (length b \<le> length I div 4 * 3 * d \<longrightarrow>
            (\<exists>out. embedLSB I b d = Inr out \<and> length out = length I \<and>
               (\<forall>k < length b.
                  bit (out ! (k div d + k div d div 3)) (k mod d) \<longleftrightarrow> bit (b ! k) 0)))"
proof (intro conjI impI)
  show "(\<exists>required available. embedLSB I b d = Inl (MessageTooLarge required available))
            \<longleftrightarrow> length I div 4 * 3 * d < length b"
    using assms by (simp add: embedLSB_cases whole_pixels)
next
  assume fits: "length b \<le> length I div 4 * 3 * d"
  then have "embedLSB I b d = Inr (embedLSB_loop I b d (push_bit d 0xFF) 0 I 0)"
    using assms by (simp add: embedLSB_cases whole_pixels)
  moreover have "length (embedLSB_loop I b d (push_bit d 0xFF) 0 I 0) = length I"
    by simp
  moreover have "\<forall>k < length b.
      bit (embedLSB_loop I b d (push_bit d 0xFF) 0 I 0 ! (k div d + k div d div 3)) (k mod d)
        \<longleftrightarrow> bit (b ! k) 0"
    using embedLSB_bits_placed [OF assms(1,2) fits] by blast
  ultimately show "\<exists>out. embedLSB I b d = Inr out \<and> length out = length I \<and>
               (\<forall>k < length b.
                  bit (out ! (k div d + k div d div 3)) (k mod d) \<longleftrightarrow> bit (b ! k) 0)"
    by blast
qed

theorem embedLSB_capacity_error_iff_witness:
  "(1::nat) \<le> 1 \<and> (1::nat) \<le> 4 \<and> length [255, 255, 255, 255 :: byte] mod 4 = 0 \<and>
   length [1, 0, 1 :: byte] \<le> length [255, 255, 255, 255 :: byte] div 4 * 3 * 1 \<and>
   embedLSB [255, 255, 255, 255] [1, 0, 1] 1 = Inr [255, 254, 255, 255] \<and>
   length [255, 254, 255, 255 :: byte] = length [255, 255, 255, 255 :: byte] \<and>
   (bit ([255, 254, 255, 255 :: byte] ! (1 div 1 + 1 div 1 div 3)) (1 mod 1)
      \<longleftrightarrow> bit ([1, 0, 1 :: byte] ! 1) 0) \<and>
   \<not> (\<exists>required available.
        embedLSB [255, 255, 255, 255] [1, 0, 1] 1 = Inl (MessageTooLarge required available))"
proof -
  have h1: "(1::nat) \<le> 1" and h2: "(1::nat) \<le> 4"
    and h3: "length [255, 255, 255, 255 :: byte] mod 4 = 0"
    by simp_all
  have run: "embedLSB [255, 255, 255, 255] [1, 0, 1] 1 = Inr [255, 254, 255, 255]"
    by (simp add: embedLSB_cases embedLSB_loop.simps embedLSB_inner.simps)
  show ?thesis
    using embedLSB_capacity_error_iff [OF h1 h2 h3, of "[1, 0, 1]"] run by simp
qed


text \<open>
  Claim C4. Whenever \<open>embedLSB\<close> succeeds, the output has the length of the input and
  agrees with it at every index \<open>i\<close> with \<open>i mod 4 = 3\<close>: the alpha channel is untouched.
\<close>

theorem embedLSB_alpha_untouched:
  assumes "embedLSB I b d = Inr out"
  shows "length out = length I \<and> (\<forall>i < length I. i mod 4 = 3 \<longrightarrow> out ! i = I ! i)"
proof -
  from assms have d: "1 \<le> d" "d \<le> 4"
    by (auto simp: embedLSB_def split: if_splits)
  from assms have "out = embedLSB_loop I b d (push_bit d 0xFF) 0 I 0"
    by (simp add: embedLSB_cases [OF d] split: if_splits)
  then show ?thesis by (simp add: embedLSB_loop_alpha)
qed


theorem embedLSB_alpha_untouched_witness:
  "embedLSB [255, 255, 255, 77, 255, 255, 255, 99] [0, 0, 0, 0, 0, 0] 1
     = Inr [254, 254, 254, 77, 254, 254, 254, 99] \<and>
   length [254, 254, 254, 77, 254, 254, 254, 99 :: byte]
     = length [255, 255, 255, 77, 255, 255, 255, 99 :: byte] \<and>
   [254, 254, 254, 77, 254, 254, 254, 99 :: byte] ! 3
     = [255, 255, 255, 77, 255, 255, 255, 99 :: byte] ! 3 \<and>
   [254, 254, 254, 77, 254, 254, 254, 99 :: byte] ! 7
     = [255, 255, 255, 77, 255, 255, 255, 99 :: byte] ! 7"
proof -
  have run: "embedLSB [255, 255, 255, 77, 255, 255, 255, 99] [0, 0, 0, 0, 0, 0] 1
     = Inr [254, 254, 254, 77, 254, 254, 254, 99]"
    by (simp add: embedLSB_cases embedLSB_loop.simps embedLSB_inner.simps)
  show ?thesis
    using embedLSB_alpha_untouched [OF run] run by simp
qed

section \<open>Pixel LSB engine: extraction is total\<close>

lemma extractLSB_inner_frame:
  "extractLSB_inner imageData bitDepth bitOffset actual i j bits bitIndex bitsSkipped
     = (bits', bitIndex', bitsSkipped') \<Longrightarrow>
   length bits' = length bits \<and> (\<forall>k. actual \<le> int k \<longrightarrow> bits' ! k = bits ! k)"
proof (induction imageData bitDepth bitOffset actual i j bits bitIndex bitsSkipped
       rule: extractLSB_inner.induct)
  case (1 imageData bitDepth bitOffset actual i j bits bitIndex bitsSkipped)
  show ?case
  proof (cases "j < bitDepth")
    case True
    note j = True
    show ?thesis
    proof (cases "bitsSkipped < bitOffset")
      case True
      with j "1.prems" have
        "extractLSB_inner imageData bitDepth bitOffset actual i (j + 1)
           bits bitIndex (bitsSkipped + 1) = (bits', bitIndex', bitsSkipped')"
        by (subst (asm) extractLSB_inner.simps) simp
      from "1.IH"(1) [OF j True this] show ?thesis .
    next
      case False
      note skipped = False
      show ?thesis
      proof (cases "actual \<le> int bitIndex")
        case True
        with j skipped "1.prems" show ?thesis
          by (subst (asm) extractLSB_inner.simps) simp
      next
        case False
        with j skipped "1.prems" have
          "extractLSB_inner imageData bitDepth bitOffset actual i (j + 1)
             (bits[bitIndex := drop_bit j (imageData ! i) AND 1]) (bitIndex + 1) bitsSkipped
           = (bits', bitIndex', bitsSkipped')"
          by (subst (asm) extractLSB_inner.simps) simp
        from "1.IH"(2) [OF j skipped False this] False show ?thesis
          by auto
      qed
    qed
  next
    case False
    with "1.prems" show ?thesis
      by (subst (asm) extractLSB_inner.simps) simp
  qed
qed

lemma extractLSB_loop_frame:
  "extractLSB_loop imageData bitDepth bitOffset actual i bits bitIndex bitsSkipped
     = (bits', bitIndex', bitsSkipped') \<Longrightarrow>
   length bits' = length bits \<and> (\<forall>k. actual \<le> int k \<longrightarrow> bits' ! k = bits ! k)"
proof (induction imageData bitDepth bitOffset actual i bits bitIndex bitsSkipped
       rule: extractLSB_loop.induct)
  case (1 imageData bitDepth bitOffset actual i bits bitIndex bitsSkipped)
  show ?case
  proof (cases "i < length imageData \<and> int bitIndex < actual")
    case True
    note guard = True
    show ?thesis
    proof (cases "i mod 4 = 3")
      case True
      with guard "1.prems" have
        "extractLSB_loop imageData bitDepth bitOffset actual (i + 1) bits bitIndex bitsSkipped
           = (bits', bitIndex', bitsSkipped')"
        by (subst (asm) extractLSB_loop.simps) simp
      from "1.IH"(1) [OF guard True this] show ?thesis .
    next
      case False
      obtain bits1 bi1 sk1 where inner:
        "extractLSB_inner imageData bitDepth bitOffset actual i 0 bits bitIndex bitsSkipped
           = (bits1, bi1, sk1)"
        by (cases "extractLSB_inner imageData bitDepth bitOffset actual i 0 bits bitIndex bitsSkipped")
      with guard False "1.prems" have
        "extractLSB_loop imageData bitDepth bitOffset actual (i + 1) bits1 bi1 sk1
           = (bits', bitIndex', bitsSkipped')"
        by (subst (asm) extractLSB_loop.simps) simp
      from "1.IH"(2) [OF guard False inner [symmetric] refl this] extractLSB_inner_frame [OF inner]
      show ?thesis by simp
    qed
  next
    case False
    with "1.prems" show ?thesis
      by (subst (asm) extractLSB_loop.simps) auto
  qed
qed

lemma extractLSB_cases:
  assumes "1 \<le> d" "d \<le> 4" "n \<le> 2 ^ 53 - 1" "canAllocate n"
  shows "extractLSB canAllocate I n d off =
     Inr (fst (extractLSB_loop I d off (min (int n) (int (3 * length I div 4 * d) - int off)) 0
                 (replicate n 0) 0 0))"
  unfolding extractLSB_def new_Uint8Array_of_length_def Let_def floor_three_quarters using assms
  by (simp split: prod.splits)

lemma extractLSB_RangeError:
  assumes "1 \<le> d" "d \<le> 4" "2 ^ 53 - 1 < n \<or> \<not> canAllocate n"
  shows "extractLSB canAllocate I n d off = Inl RangeError"
  unfolding extractLSB_def new_Uint8Array_of_length_def using assms by auto

lemma extractLSB_returns:
  assumes "1 \<le> d" "d \<le> 4" "n \<le> 2 ^ 53 - 1" "canAllocate n"
  shows "\<exists>bits. extractLSB canAllocate I n d off = Inr bits \<and> length bits = n \<and>
           (\<forall>k < n. int (3 * length I div 4 * d) - int off \<le> int k \<longrightarrow> bits ! k = 0)"
proof -
  define actual where "actual = min (int n) (int (3 * length I div 4 * d) - int off)"
  obtain bits bi sk where run:
    "extractLSB_loop I d off actual 0 (replicate n 0) 0 0 = (bits, bi, sk)"
    by (cases "extractLSB_loop I d off actual 0 (replicate n 0) 0 0")
  note frame = extractLSB_loop_frame [OF run]
  have res: "extractLSB canAllocate I n d off = Inr bits"
    using run
    by (simp add: extractLSB_cases [where canAllocate = canAllocate and n = n, OF assms] actual_def)
  have len: "length bits = n" using frame by simp
  have zero: "bits ! k = 0"
    if "k < n" "int (3 * length I div 4 * d) - int off \<le> int k" for k
  proof -
    from that have "actual \<le> int k" by (simp add: actual_def)
    with frame have "bits ! k = replicate n 0 ! k" by blast
    with that show ?thesis by simp
  qed
  from res len zero show ?thesis by blast
qed

text \<open>
  Claim C9, as stated: \<open>extractLSB\<close> returns for an arbitrary non-negative \<open>bitCount\<close>.
  The first statement after the depth guard is \<^verbatim>\<open>new Uint8Array(bitCount)\<close>, and at
  \<open>bitCount = 2^53\<close> it throws a \<^verbatim>\<open>RangeError\<close> on every host, the one that never refuses
  an allocation included.
\<close>

theorem extractLSB_huge_bitCount_counterexample:
  "extractLSB unlimitedHost [255, 255, 255, 255] (2 ^ 53) 1 0 = Inl RangeError"
  by (simp add: extractLSB_def new_Uint8Array_of_length_def)

text \<open>
  Claim C9, amended. For every bit depth in 1..4 and all natural \<open>bitCount\<close> and
  \<open>bitOffset\<close>: when \<open>bitCount\<close> is at most \<open>2^53 - 1\<close> and the host can allocate an array of
  \<open>bitCount\<close> entries, \<open>extractLSB\<close> returns an array of exactly \<open>bitCount\<close> entries, also
  when \<open>bitCount + bitOffset\<close> exceeds the carrier's capacity, and every entry at an index
  at or beyond \<open>maxBits - bitOffset\<close> is zero, where \<open>maxBits\<close> is the source's
  \<open>floor((|I| / 4) * 3) * d\<close>; otherwise it throws the \<^verbatim>\<open>RangeError\<close> of the allocation.
\<close>

theorem extractLSB_total:
  assumes "1 \<le> d" and "d \<le> 4"
  shows "(bitCount \<le> 2 ^ 53 - 1 \<and> canAllocate bitCount \<longrightarrow>
            (\<exists>bits. extractLSB canAllocate I bitCount d bitOffset = Inr bits \<and>
               length bits = bitCount \<and>
               (\<forall>k < bitCount. int (3 * length I div 4 * d) - int bitOffset \<le> int k
                  \<longrightarrow> bits ! k = 0))) \<and>
         (2 ^ 53 - 1 < bitCount \<or> \<not> canAllocate bitCount \<longrightarrow>
            extractLSB canAllocate I bitCount d bitOffset = Inl RangeError)"
proof (intro conjI impI)
  assume "bitCount \<le> 2 ^ 53 - 1 \<and> canAllocate bitCount"
  then have "bitCount \<le> 2 ^ 53 - 1" "canAllocate bitCount" by simp_all
  from extractLSB_returns [where canAllocate = canAllocate and n = bitCount, OF assms this]
  show "\<exists>bits. extractLSB canAllocate I bitCount d bitOffset = Inr bits \<and>
               length bits = bitCount \<and>
               (\<forall>k < bitCount. int (3 * length I div 4 * d) - int bitOffset \<le> int k
                  \<longrightarrow> bits ! k = 0)" .
next
  assume "2 ^ 53 - 1 < bitCount \<or> \<not> canAllocate bitCount"
  from extractLSB_RangeError [where canAllocate = canAllocate and n = bitCount, OF assms this]
  show "extractLSB canAllocate I bitCount d bitOffset = Inl RangeError" .
qed

theorem extractLSB_total_witness:
  "(1::nat) \<le> 1 \<and> (1::nat) \<le> 4 \<and> (5::nat) \<le> 2 ^ 53 - 1 \<and> unlimitedHost 5 \<and>
   extractLSB unlimitedHost [255, 255, 255, 255] 5 1 1 = Inr [1, 1, 0, 0, 0] \<and>
   length [1, 1, 0, 0, 0 :: byte] = 5 \<and>
   int (3 * length [255, 255, 255, 255 :: byte] div 4 * 1) - int 1 \<le> int 2 \<and>
   [1, 1, 0, 0, 0 :: byte] ! 2 = 0 \<and> [1, 1, 0, 0, 0 :: byte] ! 3 = 0 \<and>
   [1, 1, 0, 0, 0 :: byte] ! 4 = 0"
proof -
  have h1: "(1::nat) \<le> 1" and h2: "(1::nat) \<le> 4" by simp_all
  have h3: "(5::nat) \<le> 2 ^ 53 - 1" by simp
  have h4: "unlimitedHost 5" by (simp add: unlimitedHost_def)
  have r5: "replicate 5 (0::byte) = [0, 0, 0, 0, 0]"
    by (simp add: numeral_eq_Suc)
  have run: "extractLSB unlimitedHost [255, 255, 255, 255] 5 1 1 = Inr [1, 1, 0, 0, 0]"
    unfolding extractLSB_cases [where canAllocate = unlimitedHost and n = 5, OF h1 h2 h3 h4] r5
    by (simp add: extractLSB_loop.simps extractLSB_inner.simps)
  show ?thesis
    using extractLSB_total [OF h1 h2, of 5 unlimitedHost "[255, 255, 255, 255]" 1] run h3 h4
    by simp
qed

section \<open>Pixel LSB engine: the input buffer is not written\<close>

lemma embedLSB_loop_beyond:
  "i \<le> k \<Longrightarrow>
   length messageBits \<le> bitIndex + ((k - k div 4) - (i - i div 4)) * bitDepth \<Longrightarrow>
   embedLSB_loop imageData messageBits bitDepth lsbMask i result bitIndex ! k = result ! k"
proof (induction imageData messageBits bitDepth lsbMask i result bitIndex rule: embedLSB_loop.induct)
  case (1 imageData messageBits bitDepth lsbMask i result bitIndex)
  show ?case
  proof (cases "i < length imageData \<and> bitIndex < length messageBits")
    case True
    note guard = True
    have ne: "k \<noteq> i"
    proof
      assume "k = i"
      with "1.prems"(2) guard show False by simp
    qed
    with "1.prems"(1) have lt: "i + 1 \<le> k" by simp
    show ?thesis
    proof (cases "i mod 4 = 3")
      case True
      have "length messageBits \<le> bitIndex + ((k - k div 4) - (i + 1 - (i + 1) div 4)) * bitDepth"
        using "1.prems"(2) channel_count_alpha [OF True] by simp
      from "1.IH"(1) [OF guard True lt this] guard True show ?thesis
        by (subst embedLSB_loop.simps) simp
    next
      case False
      obtain v bi' where inner: "embedLSB_inner messageBits bitDepth 0 0 bitIndex = (v, bi')"
        by (cases "embedLSB_inner messageBits bitDepth 0 0 bitIndex")
      have bi': "bi' = min (length messageBits) (bitIndex + bitDepth)"
        using embedLSB_inner_snd [of messageBits bitDepth 0 0 bitIndex] inner guard by simp
      define a where "a = k - k div 4"
      define b0 where "b0 = i - i div 4"
      have cnt: "i + 1 - (i + 1) div 4 = Suc b0"
        using channel_count_colour [OF False] by (simp add: b0_def)
      have prem: "length messageBits \<le> bitIndex + (a - b0) * bitDepth"
        using "1.prems"(2) by (simp only: a_def b0_def)
      have "length messageBits \<le> bi' + (a - Suc b0) * bitDepth"
      proof (cases "length messageBits \<le> bitIndex + bitDepth")
        case True
        then show ?thesis by (simp add: bi')
      next
        case False
        then have b: "bi' = bitIndex + bitDepth" by (simp add: bi')
        have "a - b0 \<noteq> 0"
        proof
          assume "a - b0 = 0"
          with prem guard show False by simp
        qed
        then have "a - b0 = Suc (a - Suc b0)" by simp
        then have "(a - b0) * bitDepth = bitDepth + (a - Suc b0) * bitDepth" by simp
        with prem show ?thesis unfolding b by simp
      qed
      then have "length messageBits \<le> bi' + ((k - k div 4) - (i + 1 - (i + 1) div 4)) * bitDepth"
        by (simp only: cnt a_def)
      from "1.IH"(2) [OF guard False inner [symmetric] lt this] guard False inner ne
      show ?thesis
        by (subst embedLSB_loop.simps) simp
    qed
  next
    case False
    then show ?thesis by (subst embedLSB_loop.simps) auto
  qed
qed

lemma embedLSB_loop_store_sim:
  "result < length s \<Longrightarrow> result \<noteq> imageData \<Longrightarrow> result \<noteq> messageBits \<Longrightarrow>
   embedLSB_loop_store imageData messageBits result bitDepth lsbMask i bitIndex s =
     s[result := embedLSB_loop (s ! imageData) (s ! messageBits) bitDepth lsbMask i (s ! result) bitIndex]"
proof (induction imageData messageBits result bitDepth lsbMask i bitIndex s
       rule: embedLSB_loop_store.induct)
  case (1 imageData messageBits result bitDepth lsbMask i bitIndex s)
  note r = "1.prems"
  show ?case
  proof (cases "i < length (s ! imageData) \<and> bitIndex < length (s ! messageBits)")
    case True
    note guard = True
    show ?thesis
    proof (cases "i mod 4 = 3")
      case True
      from "1.IH"(1) [OF guard True r] guard True show ?thesis
        by (subst embedLSB_loop_store.simps, subst embedLSB_loop.simps) simp
    next
      case False
      obtain v bi' where inner:
        "embedLSB_inner (s ! messageBits) bitDepth 0 0 bitIndex = (v, bi')"
        by (cases "embedLSB_inner (s ! messageBits) bitDepth 0 0 bitIndex")
      define s' where
        "s' = s[result := (s ! result)[i := ucast ((ucast (s ! result ! i) AND lsbMask) OR v)]]"
      have s'_len: "result < length s'" using r(1) by (simp add: s'_def)
      have s'_reads: "s' ! imageData = s ! imageData" "s' ! messageBits = s ! messageBits"
        "s' ! result = (s ! result)[i := ucast ((ucast (s ! result ! i) AND lsbMask) OR v)]"
        using r by (simp_all add: s'_def)
      have IH: "embedLSB_loop_store imageData messageBits result bitDepth lsbMask (i + 1) bi' s' =
          s'[result := embedLSB_loop (s' ! imageData) (s' ! messageBits) bitDepth lsbMask (i + 1)
                         (s' ! result) bi']"
        using "1.IH"(2) [OF guard False inner [symmetric] s'_len [unfolded s'_def] r(2) r(3)]
        by (simp only: s'_def)
      have lhs: "embedLSB_loop_store imageData messageBits result bitDepth lsbMask i bitIndex s =
          embedLSB_loop_store imageData messageBits result bitDepth lsbMask (i + 1) bi' s'"
        using guard False inner by (subst embedLSB_loop_store.simps) (simp add: s'_def)
      have rhs: "embedLSB_loop (s ! imageData) (s ! messageBits) bitDepth lsbMask i (s ! result) bitIndex =
          embedLSB_loop (s ! imageData) (s ! messageBits) bitDepth lsbMask (i + 1)
            ((s ! result)[i := ucast ((ucast (s ! result ! i) AND lsbMask) OR v)]) bi'"
        using guard False inner by (subst embedLSB_loop.simps) simp
      show ?thesis
        unfolding lhs rhs IH s'_reads by (simp add: s'_def)
    qed
  next
    case False
    then show ?thesis
      using r(1)
      by (subst embedLSB_loop_store.simps, subst embedLSB_loop.simps) auto
  qed
qed

text \<open>
  Claim C8. \<open>embedLSB\<close> does not mutate its input. In a store \<open>s\<close> holding the image at
  \<open>imageData\<close> and the bit stream at \<open>messageBits\<close>, a successful call returns a reference
  that is not in \<open>s\<close> (a newly allocated array), leaves every array of \<open>s\<close> as it was (the
  caller's input among them), stores there the array computed by the value-level
  \<open>embedLSB\<close>, and every output byte the loop does not visit equals the input byte: the
  alpha bytes, and every byte from the point where the message is exhausted (index \<open>i\<close> has
  \<open>i - i div 4\<close> colour bytes before it, each taking \<open>d\<close> bits).
\<close>

theorem embedLSB_store_fresh_result:
  assumes "imageData < length s" and "messageBits < length s"
    and "embedLSB_store s imageData messageBits d = Inr (s', result)"
  shows "result = length s \<and> length s' = length s + 1 \<and>
         (\<forall>a < length s. s' ! a = s ! a) \<and>
         embedLSB (s ! imageData) (s ! messageBits) d = Inr (s' ! result) \<and>
         (\<forall>i < length (s ! imageData).
            (i mod 4 = 3 \<or> length (s ! messageBits) \<le> (i - i div 4) * d)
              \<longrightarrow> s' ! result ! i = s ! imageData ! i)"
proof -
  from assms(3) have d: "1 \<le> d" "d \<le> 4"
    by (auto simp: embedLSB_store_def split: if_splits)
  define s1 where "s1 = s @ [s ! imageData]"
  have reads: "s1 ! imageData = s ! imageData" "s1 ! messageBits = s ! messageBits"
    "s1 ! length s = s ! imageData"
    using assms(1,2) by (simp_all add: s1_def nth_append)
  have fresh: "length s < length s1" "length s \<noteq> imageData" "length s \<noteq> messageBits"
    using assms(1,2) by (simp_all add: s1_def)
  define out where
    "out = embedLSB_loop (s ! imageData) (s ! messageBits) d (push_bit d 0xFF) 0 (s ! imageData) 0"
  have loop: "embedLSB_loop_store imageData messageBits (length s) d (push_bit d 0xFF) 0 0 s1
      = s1[length s := out]"
    unfolding embedLSB_loop_store_sim [OF fresh] reads out_def ..
  from assms(3) d have fits: "\<not> 3 * length (s ! imageData) div 4 * d < length (s ! messageBits)"
    and res: "result = length s" and s': "s' = s1[length s := out]"
    unfolding embedLSB_store_def new_Uint8Array_def Let_def floor_three_quarters
    by (auto simp add: s1_def [symmetric] reads loop split: if_splits)
  have len: "length s' = length s + 1" by (simp add: s' s1_def)
  have old: "s' ! a = s ! a" if "a < length s" for a
    using that by (simp add: s' s1_def nth_append)
  have new: "s' ! result = out" by (simp add: s' res s1_def)
  have pure: "embedLSB (s ! imageData) (s ! messageBits) d = Inr (s' ! result)"
    using fits by (simp add: embedLSB_cases [OF d] new out_def)
  have untouched: "s' ! result ! i = s ! imageData ! i"
    if "i mod 4 = 3 \<or> length (s ! messageBits) \<le> (i - i div 4) * d" for i
    using that
  proof
    assume "i mod 4 = 3"
    then show ?thesis by (simp add: new out_def embedLSB_loop_alpha)
  next
    assume "length (s ! messageBits) \<le> (i - i div 4) * d"
    then have "length (s ! messageBits) \<le> 0 + ((i - i div 4) - (0 - 0 div 4)) * d" by simp
    from embedLSB_loop_beyond [OF _ this] show ?thesis by (simp add: new out_def)
  qed
  from res len old pure untouched show ?thesis by blast
qed

theorem embedLSB_store_fresh_result_witness:
  "(0::nat) < length [[255, 255, 255, 77], [0 :: byte]] \<and>
   (1::nat) < length [[255, 255, 255, 77], [0 :: byte]] \<and>
   embedLSB_store [[255, 255, 255, 77], [0]] 0 1 1 =
     Inr ([[255, 255, 255, 77], [0],
           [254, 255, 255, 77]], 2) \<and>
   (2::nat) = length [[255, 255, 255, 77], [0 :: byte]] \<and>
   [[255, 255, 255, 77], [0],
    [254, 255, 255, 77 :: byte]] ! 0
     = [[255, 255, 255, 77], [0 :: byte]] ! 0 \<and>
   embedLSB [255, 255, 255, 77] [0] 1
     = Inr [254, 255, 255, 77]"
proof -
  have h1: "(0::nat) < length [[255, 255, 255, 77], [0 :: byte]]"
    and h2: "(1::nat) < length [[255, 255, 255, 77], [0 :: byte]]"
    by simp_all
  have run: "embedLSB_store [[255, 255, 255, 77], [0]] 0 1 1 =
     Inr ([[255, 255, 255, 77], [0],
           [254, 255, 255, 77]], 2)"
    unfolding embedLSB_store_def new_Uint8Array_def Let_def floor_three_quarters
    by (simp add: embedLSB_loop_store.simps embedLSB_inner.simps)
  show ?thesis
    using embedLSB_store_fresh_result [OF h1 h2 run] run by simp
qed


section \<open>JPEG DCT engine: embedding and extraction visit the same coefficients\<close>

lemma toInt32_id: "- (2 ^ 31) \<le> a \<Longrightarrow> a < 2 ^ 31 \<Longrightarrow> toInt32 a = a"
  unfolding toInt32_def by (rule signed_take_bit_int_eq_self)

lemma toInt32_1 [simp]: "toInt32 1 = 1"
  by (rule toInt32_id) simp_all

lemma js_and_1: "js_and a 1 = a mod 2"
proof -
  have "js_and a 1 = signed_take_bit 31 a mod 2"
    by (simp add: js_and_def and_one_eq) (simp add: toInt32_def)
  also have "\<dots> = a mod 2"
    using even_signed_take_bit_iff [of 31 a] by (simp add: mod2_eq_if)
  finally show ?thesis .
qed

lemma int_and_not_1: "(a::int) AND NOT 1 = a - a mod 2"
proof -
  have "a AND NOT 1 = NOT (NOT a OR 1)"
    by (simp only: bit.de_Morgan_disj bit.double_compl)
  also have "NOT a OR 1 = NOT a + of_bool (even (NOT a))"
    by (rule or_one_eq)
  also have "NOT (NOT a + of_bool (even (NOT a))) = a - a mod 2"
    by (cases "even a") (simp_all add: not_int_def mod2_eq_if)
  finally show ?thesis .
qed

lemma js_not_1: "js_not 1 = - 2"
  by (simp add: js_not_def)

lemma js_or_1: "- (2 ^ 31) \<le> a \<Longrightarrow> a < 2 ^ 31 \<Longrightarrow> js_or a 1 = a + of_bool (even a)"
  by (simp add: js_or_def toInt32_id or_one_eq)

lemma js_and_not_1: "- (2 ^ 31) \<le> a \<Longrightarrow> a < 2 ^ 31 \<Longrightarrow> js_and a (js_not 1) = a - a mod 2"
proof -
  assume a: "- (2 ^ 31) \<le> a" "a < 2 ^ 31"
  have "toInt32 (- 2) = - 2" by (rule toInt32_id) simp_all
  moreover have "(- 2 :: int) = NOT 1" by simp
  ultimately show ?thesis
    using a by (simp add: js_and_def js_not_1 toInt32_id del: not_one_eq) (simp only: int_and_not_1 [symmetric] not_one_eq)
qed

lemma toInt32_min: "toInt32 2147483648 = - 2147483648"
  by (simp add: toInt32_def)

lemma sint_word_of_int32: "sint (word_of_int v :: int32) = toInt32 v"
  by (simp add: sint_sbintrunc' toInt32_def)

lemma sint32_range: "- (2 ^ 31) \<le> sint (w :: int32)" "sint (w :: int32) < 2 ^ 31"
  using sint_ge [of w] sint_lt [of w] by simp_all

lemma messageBit_cases: "uint ((x :: byte) AND 1) = 0 \<or> uint (x AND 1) = 1"
proof -
  have "x AND 1 = 0 \<or> x AND 1 = 1"
    by (simp add: and_one_eq mod2_eq_if)
  then show ?thesis by auto
qed

lemma embed_value_pos:
  fixes c b :: int
  assumes "2 \<le> c" "c < 2 ^ 31" "b = 0 \<or> b = 1" "js_and \<bar>c\<bar> 1 \<noteq> b"
  defines "v \<equiv> (if b \<noteq> 0 then js_or c 1 else js_and c (js_not 1))"
  shows "toInt32 v = v \<and> 2 \<le> v \<and> v mod 2 = b"
proof -
  have r: "- (2 ^ 31) \<le> c" using assms(1) by simp
  have par: "c mod 2 \<noteq> b" using assms(1,4) by (simp add: js_and_1)
  show ?thesis
  proof (cases "b = 0")
    case True
    with par have odd: "c mod 2 = 1" by presburger
    have v: "v = c - 1" using True odd by (simp add: v_def js_and_not_1 [OF r assms(2)])
    have "toInt32 v = v" using assms(1,2) unfolding v by (intro toInt32_id) simp_all
    moreover have "2 \<le> v" using odd assms(1) unfolding v by presburger
    moreover have "v mod 2 = b" using odd True unfolding v by presburger
    ultimately show ?thesis by simp
  next
    case False
    with assms(3) have b: "b = 1" by simp
    with par have ev: "c mod 2 = 0" by presburger
    then have "even c" by presburger
    then have v: "v = c + 1" using b by (simp add: v_def js_or_1 [OF r assms(2)])
    have "c + 1 < 2 ^ 31"
    proof -
      have "c \<noteq> 2 ^ 31 - 1" using ev by auto
      with assms(2) show ?thesis by simp
    qed
    then have "toInt32 v = v" using assms(1) unfolding v by (intro toInt32_id) simp_all
    moreover have "2 \<le> v" using assms(1) unfolding v by simp
    moreover have "v mod 2 = b" using ev b unfolding v by presburger
    ultimately show ?thesis by simp
  qed
qed

lemma embed_value_neg:
  fixes c b :: int
  assumes "- (2 ^ 31) \<le> c" "c \<le> - 2" "b = 0 \<or> b = 1" "js_and \<bar>c\<bar> 1 \<noteq> b"
  defines "n \<equiv> (if b \<noteq> 0 then js_or (- c) 1 else js_and (- c) (js_not 1))"
  shows "n \<noteq> 0 \<and> n \<noteq> 1 \<and> toInt32 (- n) \<noteq> 0 \<and> toInt32 (- n) \<noteq> 1 \<and> toInt32 (- n) \<noteq> - 1 \<and>
         \<bar>toInt32 (- n)\<bar> mod 2 = b"
proof (cases "c = - (2 ^ 31)")
  case True
  have "js_and \<bar>c\<bar> 1 = 0" unfolding True by (simp add: js_and_1)
  with assms(3,4) have b: "b = 1" by simp
  have "n = - (2 ^ 31) + 1"
    unfolding n_def True using b by (simp add: js_or_def toInt32_min or_one_eq)
  then have n: "n = - 2147483647" by simp
  have "toInt32 (- n) = 2147483647" unfolding n by (intro toInt32_id [THEN trans]) simp_all
  then show ?thesis using b n by simp
next
  case False
  with assms(1) have lt: "- c < 2 ^ 31" by simp
  from assms(2) have ge: "2 \<le> - c" by simp
  have "js_and \<bar>- c\<bar> 1 \<noteq> b" using assms(4) by simp
  from embed_value_pos [OF ge lt assms(3) this]
  have n: "toInt32 n = n" "2 \<le> n" "n mod 2 = b" by (simp_all add: n_def)
  from n(1) have "n < 2 ^ 31"
    by (simp add: toInt32_def signed_take_bit_int_eq_self_iff)
  with n(2) have "toInt32 (- n) = - n" by (intro toInt32_id) simp_all
  moreover have "\<bar>- n\<bar> mod 2 = b" using n(2,3) by simp
  ultimately show ?thesis using n(2) by simp
qed

lemma embed_body_unusable:
  assumes "\<not> usable (sint (block ! i))"
  shows "embedInCoefficients_body m i block bi = (block, bi)"
  using assms by (auto simp: embedInCoefficients_body_def Let_def)

lemma embed_body_usable:
  assumes i: "i < length block" and u: "usable (sint (block ! i))"
  shows "\<exists>w. embedInCoefficients_body m i block bi = (block[i := w], bi + 1) \<and>
             usable (sint w) \<and> js_and \<bar>sint w\<bar> 1 = uint (m ! bi AND 1)"
proof -
  define c where "c = sint (block ! i)"
  define b where "b = uint (m ! bi AND 1)"
  have b01: "b = 0 \<or> b = 1" unfolding b_def by (rule messageBit_cases)
  have range: "- (2 ^ 31) \<le> c" "c < 2 ^ 31" unfolding c_def by (rule sint32_range)+
  have uc: "c \<noteq> 0" "c \<noteq> 1" "c \<noteq> - 1" using u by (simp_all add: c_def)
  show ?thesis
  proof (cases "js_and \<bar>c\<bar> 1 = b")
    case True
    then have "embedInCoefficients_body m i block bi = (block, bi + 1)"
      using uc by (simp add: embedInCoefficients_body_def Let_def c_def [symmetric] b_def [symmetric])
    moreover have "block[i := block ! i] = block" by simp
    ultimately show ?thesis
      using True u unfolding c_def b_def by metis
  next
    case False
    note differs = False
    show ?thesis
    proof (cases "0 < c")
      case True
      with uc have ge: "2 \<le> c" by simp
      define v where "v = (if b \<noteq> 0 then js_or c 1 else js_and c (js_not 1))"
      from embed_value_pos [OF ge range(2) b01 differs]
      have v: "toInt32 v = v" "2 \<le> v" "v mod 2 = b" by (simp_all add: v_def)
      have sv: "sint (word_of_int v :: int32) = v" by (simp add: sint_word_of_int32 v(1))
      have "embedInCoefficients_body m i block bi = (block[i := word_of_int v], bi + 1)"
        using uc differs True i v(2)
        by (simp add: embedInCoefficients_body_def Let_def c_def [symmetric] b_def [symmetric]
              v_def [symmetric] sv)
      moreover have "usable (sint (word_of_int v :: int32))" using v(2) by (simp add: sv)
      moreover have "js_and \<bar>sint (word_of_int v :: int32)\<bar> 1 = b"
        using v(2,3) by (simp add: sv js_and_1)
      ultimately show ?thesis unfolding b_def by blast
    next
      case False
      with uc have le: "c \<le> - 2" by simp
      define n where "n = (if b \<noteq> 0 then js_or (- c) 1 else js_and (- c) (js_not 1))"
      from embed_value_neg [OF range(1) le b01 differs]
      have n: "n \<noteq> 0" "n \<noteq> 1" "usable (toInt32 (- n))" "\<bar>toInt32 (- n)\<bar> mod 2 = b"
        by (simp_all add: n_def)
      have sv: "sint (word_of_int (- n) :: int32) = toInt32 (- n)" by (rule sint_word_of_int32)
      have "embedInCoefficients_body m i block bi = (block[i := word_of_int (- n)], bi + 1)"
        using uc differs False n(1,2)
        by (simp add: embedInCoefficients_body_def Let_def c_def [symmetric] b_def [symmetric]
              n_def [symmetric])
      moreover have "usable (sint (word_of_int (- n) :: int32))" using n(3) unfolding sv .
      moreover have "js_and \<bar>sint (word_of_int (- n) :: int32)\<bar> 1 = b"
        using n(4) unfolding sv js_and_1 .
      ultimately show ?thesis unfolding b_def by blast
    qed
  qed
qed

lemma capacity_block_acc:
  "capacity_block i block bitCount = bitCount + capacity_block i block 0"
proof (induction "64 - i" arbitrary: i bitCount)
  case 0
  then have "\<not> i < 64" by simp
  then show ?case
    by (simp add: capacity_block.simps [of i block bitCount] capacity_block.simps [of i block 0])
next
  case (Suc n)
  then have i: "i < 64" and n: "n = 64 - (i + 1)" by simp_all
  note IH = Suc.hyps(1) [OF n]
  show ?case
  proof (cases "usable (sint (block ! i))")
    case True
    have "capacity_block i block bitCount = capacity_block (i + 1) block (bitCount + 1)"
      using i True by (simp add: capacity_block.simps [of i block bitCount])
    moreover have "capacity_block i block 0 = capacity_block (i + 1) block (0 + 1)"
      using i True by (simp add: capacity_block.simps [of i block 0])
    ultimately show ?thesis
      using IH [of "bitCount + 1"] IH [of "0 + 1"] by simp
  next
    case False
    have "capacity_block i block bitCount = capacity_block (i + 1) block bitCount"
      using i False by (auto simp add: capacity_block.simps [of i block bitCount])
    moreover have "capacity_block i block 0 = capacity_block (i + 1) block 0"
      using i False by (auto simp add: capacity_block.simps [of i block 0])
    ultimately show ?thesis
      using IH [of bitCount] by simp
  qed
qed

lemma capacity_block_step:
  "i < 64 \<Longrightarrow> capacity_block i block 0 =
     (if usable (sint (block ! i)) then 1 else 0) + capacity_block (i + 1) block 0"
  using capacity_block_acc [of "i + 1" block 1]
  by (auto simp add: capacity_block.simps [of i block 0])

lemma capacity_block_done: "\<not> i < 64 \<Longrightarrow> capacity_block i block 0 = 0"
  by (simp add: capacity_block.simps [of i block 0])

lemma capacity_block_frame:
  "length block' = length block \<Longrightarrow> (\<forall>k \<ge> i. usable (sint (block' ! k)) = usable (sint (block ! k))) \<Longrightarrow>
   capacity_block i block' 0 = capacity_block i block 0"
proof (induction "64 - i" arbitrary: i)
  case 0
  then show ?case by (simp add: capacity_block_done)
next
  case (Suc n)
  then have i: "i < 64" and n: "n = 64 - (i + 1)" by simp_all
  have "capacity_block (i + 1) block' 0 = capacity_block (i + 1) block 0"
    using Suc.hyps(1) [OF n Suc.prems(1)] Suc.prems(2) by simp
  moreover have "usable (sint (block' ! i)) = usable (sint (block ! i))"
    using Suc.prems(2) by simp
  ultimately show ?case
    by (simp only: capacity_block_step [OF i])
qed

lemma capacity_row_acc: "capacity_row row bitCount = bitCount + capacity_row row 0"
proof (induction row arbitrary: bitCount)
  case Nil
  show ?case by simp
next
  case (Cons block row)
  show ?case
    using Cons [of "capacity_block 1 block bitCount"] Cons [of "capacity_block 1 block 0"]
      capacity_block_acc [of 1 block bitCount]
    by simp
qed

lemma capacity_rows_acc: "capacity_rows rows bitCount = bitCount + capacity_rows rows 0"
proof (induction rows arbitrary: bitCount)
  case Nil
  show ?case by simp
next
  case (Cons row rows)
  show ?case
    using Cons [of "capacity_row row bitCount"] Cons [of "capacity_row row 0"]
      capacity_row_acc [of row bitCount]
    by simp
qed

lemma capacity_components_acc:
  "capacity_components useChroma cs bitCount = bitCount + capacity_components useChroma cs 0"
proof (induction cs arbitrary: bitCount)
  case Nil
  show ?case by simp
next
  case (Cons c cs)
  show ?case
  proof (cases "\<not> useChroma \<and> id' c \<noteq> 1")
    case True
    have "capacity_components useChroma (c # cs) n = capacity_components useChroma cs n" for n
      using True by simp
    then show ?thesis using Cons [of bitCount] by simp
  next
    case False
    have "capacity_components useChroma (c # cs) n =
          capacity_components useChroma cs (capacity_rows (blocks c) n)" for n
      using False by auto
    then show ?thesis
      using Cons [of "capacity_rows (blocks c) bitCount"] Cons [of "capacity_rows (blocks c) 0"]
        capacity_rows_acc [of "blocks c" bitCount]
      by simp
  qed
qed

lemma embed_block_stop:
  "\<not> (i < 64 \<and> bi < length m) \<Longrightarrow> embedInCoefficients_block m i block bi = (block, bi)"
  by (subst embedInCoefficients_block.simps) auto

lemma embed_block_step:
  "i < 64 \<Longrightarrow> bi < length m \<Longrightarrow> embedInCoefficients_body m i block bi = (block1, bi1) \<Longrightarrow>
   embedInCoefficients_block m i block bi = embedInCoefficients_block m (i + 1) block1 bi1"
  by (subst embedInCoefficients_block.simps) simp

lemma extract_block_stop:
  "\<not> (i < 64 \<and> bi < n) \<Longrightarrow> extractFromCoefficients_block n i block bits bi = (bits, bi)"
  by (subst extractFromCoefficients_block.simps) auto

lemma extract_block_step:
  "i < 64 \<Longrightarrow> bi < n \<Longrightarrow> extractFromCoefficients_body i block bits bi = (bits1, bi1) \<Longrightarrow>
   extractFromCoefficients_block n i block bits bi = extractFromCoefficients_block n (i + 1) block bits1 bi1"
  by (subst extractFromCoefficients_block.simps) simp

lemma embed_block_spec:
  assumes "64 \<le> length block" and "bi \<le> length m"
    and "embedInCoefficients_block m i block bi = (block', bi')"
  shows "length block' = length block \<and> (\<forall>k < i. block' ! k = block ! k) \<and>
         (\<forall>k. usable (sint (block' ! k)) = usable (sint (block ! k))) \<and>
         bi' = min (length m) (bi + capacity_block i block 0)"
  using assms
proof (induction "64 - i" arbitrary: i block bi)
  case 0
  then have "\<not> (i < 64 \<and> bi < length m)" by simp
  from embed_block_stop [OF this] "0.prems"(3) have "block' = block" "bi' = bi" by simp_all
  with 0 show ?case by (simp add: capacity_block_done)
next
  case (Suc n)
  then have i: "i < 64" and n: "n = 64 - (i + 1)" by simp_all
  show ?case
  proof (cases "bi < length m")
    case False
    then have "\<not> (i < 64 \<and> bi < length m)" by simp
    from embed_block_stop [OF this] Suc.prems(3) have "block' = block" "bi' = bi" by simp_all
    with False Suc.prems(2) show ?thesis by simp
  next
    case True
    note bi = True
    from i Suc.prems(1) have il: "i < length block" by simp
    show ?thesis
    proof (cases "usable (sint (block ! i))")
      case True
      from embed_body_usable [OF il True, of m bi] obtain w where
        body: "embedInCoefficients_body m i block bi = (block[i := w], bi + 1)"
        and w: "usable (sint w)" by blast
      from embed_block_step [OF i bi body] Suc.prems(3)
      have rec: "embedInCoefficients_block m (i + 1) (block[i := w]) (bi + 1) = (block', bi')" by simp
      have len1: "64 \<le> length (block[i := w])" using Suc.prems(1) by simp
      have bi1: "bi + 1 \<le> length m" using bi by simp
      from Suc.hyps(1) [OF n len1 bi1 rec]
      have IH: "length block' = length block" "\<forall>k < i + 1. block' ! k = block[i := w] ! k"
        "\<forall>k. usable (sint (block' ! k)) = usable (sint (block[i := w] ! k))"
        "bi' = min (length m) (bi + 1 + capacity_block (i + 1) (block[i := w]) 0)"
        by simp_all
      have us1: "usable (sint (block[i := w] ! k)) = usable (sint (block ! k))" for k
        using True w il by (cases "k = i") simp_all
      have "capacity_block (i + 1) (block[i := w]) 0 = capacity_block (i + 1) block 0"
        by (rule capacity_block_frame) (simp_all add: us1)
      moreover have "capacity_block i block 0 = 1 + capacity_block (i + 1) block 0"
        using True by (simp add: capacity_block_step [OF i])
      ultimately have cnt: "bi' = min (length m) (bi + capacity_block i block 0)"
        using IH(4) by simp
      have before: "\<forall>k < i. block' ! k = block ! k"
        using IH(2) by simp
      have "\<forall>k. usable (sint (block' ! k)) = usable (sint (block ! k))"
        using IH(3) us1 by simp
      with IH(1) before cnt show ?thesis by blast
    next
      case False
      from embed_body_unusable [OF False, of m bi]
      have body: "embedInCoefficients_body m i block bi = (block, bi)" .
      from embed_block_step [OF i bi body] Suc.prems(3)
      have rec: "embedInCoefficients_block m (i + 1) block bi = (block', bi')" by simp
      from Suc.hyps(1) [OF n Suc.prems(1,2) rec]
      have IH: "length block' = length block" "\<forall>k < i + 1. block' ! k = block ! k"
        "\<forall>k. usable (sint (block' ! k)) = usable (sint (block ! k))"
        "bi' = min (length m) (bi + capacity_block (i + 1) block 0)"
        by simp_all
      have "capacity_block i block 0 = capacity_block (i + 1) block 0"
        using False by (auto simp add: capacity_block_step [OF i])
      with IH show ?thesis by simp
    qed
  qed
qed

lemma extracted_prefix_step:
  assumes "extracted_prefix m bits bi" and "bi < length m"
  shows "extracted_prefix m (bits[bi := m ! bi AND 1]) (bi + 1)"
proof -
  from assms have len: "length bits = length m" and pre: "\<forall>k < bi. bits ! k = m ! k AND 1"
    by (simp_all add: extracted_prefix_def)
  have "(bits[bi := m ! bi AND 1]) ! k = m ! k AND 1" if "k < bi + 1" for k
    using that pre len assms(2) by (cases "k = bi") simp_all
  with len assms(2) show ?thesis by (simp add: extracted_prefix_def)
qed

lemma extract_block_lockstep:
  assumes "64 \<le> length block"
    and "embedInCoefficients_block m i block bi = (block', bi')"
    and "extracted_prefix m bits bi"
  shows "\<exists>bits'. extractFromCoefficients_block (length m) i block' bits bi = (bits', bi') \<and>
           extracted_prefix m bits' bi'"
  using assms
proof (induction "64 - i" arbitrary: i block bi bits)
  case 0
  then have stop: "\<not> (i < 64 \<and> bi < length m)" by simp
  from embed_block_stop [OF stop] "0.prems"(2) have "bi' = bi" by simp
  with extract_block_stop [OF stop] "0.prems"(3) show ?case by simp
next
  case (Suc n)
  then have i: "i < 64" and n: "n = 64 - (i + 1)" by simp_all
  from Suc.prems(3) have le: "bi \<le> length m" by (simp add: extracted_prefix_def)
  show ?case
  proof (cases "bi < length m")
    case False
    then have stop: "\<not> (i < 64 \<and> bi < length m)" by simp
    from embed_block_stop [OF stop] Suc.prems(2) have "bi' = bi" by simp
    with extract_block_stop [OF stop] Suc.prems(3) show ?thesis by simp
  next
    case True
    note bi = True
    from i Suc.prems(1) have il: "i < length block" by simp
    show ?thesis
    proof (cases "usable (sint (block ! i))")
      case True
      from embed_body_usable [OF il True, of m bi] obtain w where
        body: "embedInCoefficients_body m i block bi = (block[i := w], bi + 1)"
        and w: "usable (sint w)" and lsb: "js_and \<bar>sint w\<bar> 1 = uint (m ! bi AND 1)" by blast
      from embed_block_step [OF i bi body] Suc.prems(2)
      have rec: "embedInCoefficients_block m (i + 1) (block[i := w]) (bi + 1) = (block', bi')" by simp
      have len1: "64 \<le> length (block[i := w])" using Suc.prems(1) by simp
      have bi1: "bi + 1 \<le> length m" using bi by simp
      from embed_block_spec [OF len1 bi1 rec] il have at_i: "block' ! i = w" by simp
      have pre1: "extracted_prefix m (bits[bi := m ! bi AND 1]) (bi + 1)"
        using Suc.prems(3) bi by (rule extracted_prefix_step)
      have ebody: "extractFromCoefficients_body i block' bits bi = (bits[bi := m ! bi AND 1], bi + 1)"
        using w lsb by (simp add: extractFromCoefficients_body_def Let_def at_i)
      from Suc.hyps(1) [OF n len1 rec pre1] obtain bits' where
        "extractFromCoefficients_block (length m) (i + 1) block' (bits[bi := m ! bi AND 1]) (bi + 1)
           = (bits', bi')" and "extracted_prefix m bits' bi'" by blast
      with extract_block_step [OF i bi ebody] show ?thesis by simp
    next
      case False
      from embed_body_unusable [OF False, of m bi]
      have body: "embedInCoefficients_body m i block bi = (block, bi)" .
      from embed_block_step [OF i bi body] Suc.prems(2)
      have rec: "embedInCoefficients_block m (i + 1) block bi = (block', bi')" by simp
      from embed_block_spec [OF Suc.prems(1) le rec] have at_i: "block' ! i = block ! i" by simp
      have ebody: "extractFromCoefficients_body i block' bits bi = (bits, bi)"
        using False by (auto simp add: extractFromCoefficients_body_def Let_def at_i)
      from Suc.hyps(1) [OF n Suc.prems(1) rec Suc.prems(3)] obtain bits' where
        "extractFromCoefficients_block (length m) (i + 1) block' bits bi = (bits', bi')"
        and "extracted_prefix m bits' bi'" by blast
      with extract_block_step [OF i bi ebody] show ?thesis by simp
    qed
  qed
qed

lemma min_min_add: "min (n::nat) (min n (a + b) + c) = min n (a + (b + c))"
  by simp

lemma row_lockstep:
  assumes "\<forall>b \<in> set row. 64 \<le> length b"
    and "embedInCoefficients_row m row bi = (row', bi')"
    and "extracted_prefix m bits bi"
  shows "bi' = min (length m) (bi + capacity_row row 0) \<and>
         (\<exists>bits'. extractFromCoefficients_row (length m) row' bits bi = (bits', bi') \<and>
            extracted_prefix m bits' bi')"
  using assms
proof (induction row arbitrary: bi bits row' bi')
  case Nil
  then show ?case by (auto simp: extracted_prefix_def)
next
  case (Cons block row)
  from Cons.prems(3) have le: "bi \<le> length m" by (simp add: extracted_prefix_def)
  show ?case
  proof (cases "length m \<le> bi")
    case True
    with Cons.prems(2) have "row' = block # row" "bi' = bi" by simp_all
    with True le Cons.prems(3) show ?thesis by simp
  next
    case False
    obtain block1 bi1 where blk: "embedInCoefficients_block m 1 block bi = (block1, bi1)"
      by (cases "embedInCoefficients_block m 1 block bi")
    obtain row1 bi2 where rest: "embedInCoefficients_row m row bi1 = (row1, bi2)"
      by (cases "embedInCoefficients_row m row bi1")
    from Cons.prems(2) False blk rest have res: "row' = block1 # row1" "bi' = bi2" by simp_all
    from Cons.prems(1) have len: "64 \<le> length block" and lens: "\<forall>b \<in> set row. 64 \<le> length b"
      by simp_all
    from embed_block_spec [OF len le blk]
    have bi1: "bi1 = min (length m) (bi + capacity_block 1 block 0)" by simp
    from extract_block_lockstep [OF len blk Cons.prems(3)] obtain bits1 where
      ex1: "extractFromCoefficients_block (length m) 1 block1 bits bi = (bits1, bi1)"
      and pre1: "extracted_prefix m bits1 bi1" by blast
    from Cons.IH [OF lens rest pre1] obtain bits' where
      bi2: "bi2 = min (length m) (bi1 + capacity_row row 0)"
      and ex2: "extractFromCoefficients_row (length m) row1 bits1 bi1 = (bits', bi2)"
      and pre2: "extracted_prefix m bits' bi2" by blast
    have cap: "capacity_row (block # row) 0 = capacity_block 1 block 0 + capacity_row row 0"
      using capacity_row_acc [of row "capacity_block 1 block 0"] by simp
    have "bi' = min (length m) (bi + capacity_row (block # row) 0)"
      unfolding res bi2 bi1 cap by (rule min_min_add)
    moreover have "extractFromCoefficients_row (length m) row' bits bi = (bits', bi')"
      using False ex1 ex2 by (simp add: res)
    ultimately show ?thesis using pre2 res by blast
  qed
qed

lemma rows_lockstep:
  assumes "\<forall>row \<in> set rows. \<forall>b \<in> set row. 64 \<le> length b"
    and "embedInCoefficients_rows m rows bi = (rows', bi')"
    and "extracted_prefix m bits bi"
  shows "bi' = min (length m) (bi + capacity_rows rows 0) \<and>
         (\<exists>bits'. extractFromCoefficients_rows (length m) rows' bits bi = (bits', bi') \<and>
            extracted_prefix m bits' bi')"
  using assms
proof (induction rows arbitrary: bi bits rows' bi')
  case Nil
  then show ?case by (auto simp: extracted_prefix_def)
next
  case (Cons row rows)
  from Cons.prems(3) have le: "bi \<le> length m" by (simp add: extracted_prefix_def)
  show ?case
  proof (cases "length m \<le> bi")
    case True
    with Cons.prems(2) have "rows' = row # rows" "bi' = bi" by simp_all
    with True le Cons.prems(3) show ?thesis by simp
  next
    case False
    obtain row1 bi1 where r: "embedInCoefficients_row m row bi = (row1, bi1)"
      by (cases "embedInCoefficients_row m row bi")
    obtain rows1 bi2 where rest: "embedInCoefficients_rows m rows bi1 = (rows1, bi2)"
      by (cases "embedInCoefficients_rows m rows bi1")
    from Cons.prems(2) False r rest have res: "rows' = row1 # rows1" "bi' = bi2" by simp_all
    from Cons.prems(1) have len: "\<forall>b \<in> set row. 64 \<le> length b"
      and lens: "\<forall>row \<in> set rows. \<forall>b \<in> set row. 64 \<le> length b"
      by simp_all
    from row_lockstep [OF len r Cons.prems(3)] obtain bits1 where
      bi1: "bi1 = min (length m) (bi + capacity_row row 0)"
      and ex1: "extractFromCoefficients_row (length m) row1 bits bi = (bits1, bi1)"
      and pre1: "extracted_prefix m bits1 bi1" by blast
    from Cons.IH [OF lens rest pre1] obtain bits' where
      bi2: "bi2 = min (length m) (bi1 + capacity_rows rows 0)"
      and ex2: "extractFromCoefficients_rows (length m) rows1 bits1 bi1 = (bits', bi2)"
      and pre2: "extracted_prefix m bits' bi2" by blast
    have cap: "capacity_rows (row # rows) 0 = capacity_row row 0 + capacity_rows rows 0"
      using capacity_rows_acc [of rows "capacity_row row 0"] by simp
    have "bi' = min (length m) (bi + capacity_rows (row # rows) 0)"
      unfolding res bi2 bi1 cap by (rule min_min_add)
    moreover have "extractFromCoefficients_rows (length m) rows' bits bi = (bits', bi')"
      using False ex1 ex2 by (simp add: res)
    ultimately show ?thesis using pre2 res by blast
  qed
qed

lemma components_lockstep:
  assumes "\<forall>c \<in> set cs. \<forall>row \<in> set (blocks c). \<forall>b \<in> set row. 64 \<le> length b"
    and "embedInCoefficients_components m useChroma cs bi = (cs', bi')"
    and "extracted_prefix m bits bi"
  shows "bi' = min (length m) (bi + capacity_components useChroma cs 0) \<and>
         (\<exists>bits'. extractFromCoefficients_components (length m) useChroma cs' bits bi = (bits', bi') \<and>
            extracted_prefix m bits' bi')"
  using assms
proof (induction cs arbitrary: bi bits cs' bi')
  case Nil
  then show ?case by (auto simp: extracted_prefix_def)
next
  case (Cons c cs)
  from Cons.prems(3) have le: "bi \<le> length m" by (simp add: extracted_prefix_def)
  from Cons.prems(1) have len: "\<forall>row \<in> set (blocks c). \<forall>b \<in> set row. 64 \<le> length b"
    and lens: "\<forall>c \<in> set cs. \<forall>row \<in> set (blocks c). \<forall>b \<in> set row. 64 \<le> length b"
    by simp_all
  show ?case
  proof (cases "length m \<le> bi")
    case True
    with Cons.prems(2) have "cs' = c # cs" "bi' = bi" by simp_all
    with True le Cons.prems(3) show ?thesis by simp
  next
    case False
    note more = False
    show ?thesis
    proof (cases "\<not> useChroma \<and> id' c \<noteq> 1")
      case True
      obtain cs1 bi2 where rest: "embedInCoefficients_components m useChroma cs bi = (cs1, bi2)"
        by (cases "embedInCoefficients_components m useChroma cs bi")
      from Cons.prems(2) more True rest have res: "cs' = c # cs1" "bi' = bi2" by simp_all
      from Cons.IH [OF lens rest Cons.prems(3)] obtain bits' where
        bi2: "bi2 = min (length m) (bi + capacity_components useChroma cs 0)"
        and ex2: "extractFromCoefficients_components (length m) useChroma cs1 bits bi = (bits', bi2)"
        and pre2: "extracted_prefix m bits' bi2" by blast
      have cap: "capacity_components useChroma (c # cs) 0 = capacity_components useChroma cs 0"
        using True by simp
      have "extractFromCoefficients_components (length m) useChroma cs' bits bi = (bits', bi')"
        using more True ex2 by (simp add: res)
      with bi2 cap pre2 res show ?thesis by simp
    next
      case False
      obtain rows1 bi1 where r: "embedInCoefficients_rows m (blocks c) bi = (rows1, bi1)"
        by (cases "embedInCoefficients_rows m (blocks c) bi")
      obtain cs1 bi2 where rest: "embedInCoefficients_components m useChroma cs bi1 = (cs1, bi2)"
        by (cases "embedInCoefficients_components m useChroma cs bi1")
      from Cons.prems(2) more False r rest
      have res: "cs' = c\<lparr>blocks := rows1\<rparr> # cs1" "bi' = bi2" by auto
      from rows_lockstep [OF len r Cons.prems(3)] obtain bits1 where
        bi1: "bi1 = min (length m) (bi + capacity_rows (blocks c) 0)"
        and ex1: "extractFromCoefficients_rows (length m) rows1 bits bi = (bits1, bi1)"
        and pre1: "extracted_prefix m bits1 bi1" by blast
      from Cons.IH [OF lens rest pre1] obtain bits' where
        bi2: "bi2 = min (length m) (bi1 + capacity_components useChroma cs 0)"
        and ex2: "extractFromCoefficients_components (length m) useChroma cs1 bits1 bi1 = (bits', bi2)"
        and pre2: "extracted_prefix m bits' bi2" by blast
      have cap: "capacity_components useChroma (c # cs) 0 =
          capacity_rows (blocks c) 0 + capacity_components useChroma cs 0"
        using False capacity_components_acc [of useChroma cs "capacity_rows (blocks c) 0"] by auto
      have "bi' = min (length m) (bi + capacity_components useChroma (c # cs) 0)"
        unfolding res bi2 bi1 cap by (rule min_min_add)
      moreover have "extractFromCoefficients_components (length m) useChroma cs' bits bi = (bits', bi')"
        using more False ex1 ex2 by (auto simp add: res)
      ultimately show ?thesis using pre2 res by blast
    qed
  qed
qed

lemma extracted_prefix_all:
  assumes "extracted_prefix m bits (length m)" and "\<forall>x \<in> set m. x = 0 \<or> x = 1"
  shows "bits = m"
proof (rule nth_equalityI)
  from assms(1) show "length bits = length m" by (simp add: extracted_prefix_def)
next
  fix k assume "k < length bits"
  with assms(1) have k: "k < length m" and "bits ! k = m ! k AND 1"
    by (simp_all add: extracted_prefix_def)
  moreover from k assms(2) have "m ! k = 0 \<or> m ! k = 1" by simp
  ultimately show "bits ! k = m ! k" by auto
qed

text \<open>
  Claim C2. For every coefficient object \<open>K\<close> (blocks of 64 coefficients) and every bit
  sequence \<open>m\<close> no longer than the number of usable AC coefficients of the selected
  components, \<open>embedInCoefficients\<close> succeeds and \<open>extractFromCoefficients\<close> on its result
  returns \<open>m\<close>: both walks stop at the same usable coefficients, in the same order.
\<close>

theorem embed_extract_coefficients_roundtrip:
  assumes blocks64: "\<forall>c \<in> set (components K). \<forall>row \<in> set (blocks c). \<forall>b \<in> set row. length b = 64"
    and bits: "\<forall>x \<in> set m. x = 0 \<or> x = 1"
    and capacity: "length m \<le> capacity_components useChroma (components K) 0"
  shows "\<exists>K'. embedInCoefficients K m useChroma = Inr K' \<and>
              extractFromCoefficients K' (length m) useChroma = m"
proof -
  obtain cs' bi' where emb:
    "embedInCoefficients_components m useChroma (components K) 0 = (cs', bi')"
    by (cases "embedInCoefficients_components m useChroma (components K) 0")
  have wf: "\<forall>c \<in> set (components K). \<forall>row \<in> set (blocks c). \<forall>b \<in> set row. 64 \<le> length b"
    using blocks64 by simp
  have start: "extracted_prefix m (replicate (length m) 0) 0"
    by (simp add: extracted_prefix_def)
  from components_lockstep [OF wf emb start] obtain bits' where
    bi': "bi' = min (length m) (0 + capacity_components useChroma (components K) 0)"
    and ex: "extractFromCoefficients_components (length m) useChroma cs'
               (replicate (length m) 0) 0 = (bits', bi')"
    and pre: "extracted_prefix m bits' bi'" by blast
  from bi' capacity have full: "bi' = length m" by simp
  have "embedInCoefficients K m useChroma = Inr (K\<lparr>components := cs'\<rparr>)"
    using emb full by (simp add: embedInCoefficients_def)
  moreover have "extractFromCoefficients (K\<lparr>components := cs'\<rparr>) (length m) useChroma = bits'"
    using ex by (simp add: extractFromCoefficients_def)
  moreover have "bits' = m"
    using pre bits unfolding full by (rule extracted_prefix_all)
  ultimately show ?thesis by simp
qed

theorem embed_extract_coefficients_roundtrip_witness:
  "embedInCoefficients
       \<lparr>components = [\<lparr>id' = 1, blocks = [[[50, 2, - 3] @ replicate 61 0]]\<rparr>]\<rparr> [1, 0] True
     = Inr \<lparr>components = [\<lparr>id' = 1, blocks = [[[50, 3, - 2] @ replicate 61 0]]\<rparr>]\<rparr> \<and>
   extractFromCoefficients
       \<lparr>components = [\<lparr>id' = 1, blocks = [[[50, 3, - 2] @ replicate 61 0]]\<rparr>]\<rparr>
       (length [1, 0 :: byte]) True
     = [1, 0]"
proof -
  define K where
    "K = \<lparr>components = [\<lparr>id' = 1, blocks = [[[50, 2, - 3] @ replicate 61 (0 :: int32)]]\<rparr>]\<rparr>"
  have h1: "\<forall>c \<in> set (components K). \<forall>row \<in> set (blocks c). \<forall>b \<in> set row. length b = 64"
    by (simp add: K_def)
  have h2: "\<forall>x \<in> set [1, 0 :: byte]. x = 0 \<or> x = 1"
    by simp
  have "capacity_components True
         [\<lparr>id' = 1, blocks = [[[50, 2, - 3] @ replicate 61 0]]\<rparr>] 0 = 2"
    by code_simp
  then have h3: "length [1, 0 :: byte] \<le> capacity_components True (components K) 0"
    by (simp add: K_def)
  have emb: "embedInCoefficients K [1, 0] True
     = Inr \<lparr>components = [\<lparr>id' = 1, blocks = [[[50, 3, - 2] @ replicate 61 0]]\<rparr>]\<rparr>"
    unfolding K_def by code_simp
  from embed_extract_coefficients_roundtrip [OF h1 h2 h3] emb
  show ?thesis by (simp add: K_def)
qed

section \<open>Multi-frame extraction: which chunks the split-mode decoder accepts\<close>






















section \<open>Text engine: searching and stripping\<close>

lemma indexOf_at_not_found:
  "indexOf_at s pattern k = - 1 \<longleftrightarrow> \<not> (\<exists>xs ys. s = xs @ pattern @ ys)"
proof (induction s arbitrary: k)
  case Nil
  show ?case by simp
next
  case (Cons x s)
  show ?case
  proof (cases "take (length pattern) (x # s) = pattern")
    case True
    hence "x # s = [] @ pattern @ drop (length pattern) (x # s)"
      by (metis append_Nil append_take_drop_id)
    hence "\<exists>xs ys. x # s = xs @ pattern @ ys" by blast
    with True show ?thesis by simp
  next
    case False
    have "(\<exists>xs ys. x # s = xs @ pattern @ ys) \<longleftrightarrow> (\<exists>xs ys. s = xs @ pattern @ ys)"
    proof
      assume "\<exists>xs ys. x # s = xs @ pattern @ ys"
      then obtain xs ys where eq: "x # s = xs @ pattern @ ys" by blast
      show "\<exists>xs ys. s = xs @ pattern @ ys"
      proof (cases xs)
        case Nil
        with eq have "take (length pattern) (x # s) = pattern" by simp
        with False show ?thesis by simp
      next
        case (Cons y xs')
        with eq have "s = xs' @ pattern @ ys" by simp
        thus ?thesis by blast
      qed
    next
      assume "\<exists>xs ys. s = xs @ pattern @ ys"
      then obtain xs ys where "s = xs @ pattern @ ys" by blast
      hence "x # s = (x # xs) @ pattern @ ys" by simp
      thus "\<exists>xs ys. x # s = xs @ pattern @ ys" by blast
    qed
    with False Cons.IH [of "k + 1"] show ?thesis by simp
  qed
qed

lemma indexOf_not_found:
  "indexOf s pattern = - 1 \<longleftrightarrow> \<not> (\<exists>xs ys. s = xs @ pattern @ ys)"
  unfolding indexOf_def by (rule indexOf_at_not_found)

lemma indexOf_at_found:
  assumes "indexOf_at s pattern k \<noteq> - 1"
  shows "\<exists>j. indexOf_at s pattern k = int (k + j) \<and> j + length pattern \<le> length s
            \<and> take (length pattern) (drop j s) = pattern"
  using assms
proof (induction s arbitrary: k)
  case Nil
  thus ?case by (simp split: if_splits)
next
  case (Cons x s)
  show ?case
  proof (cases "take (length pattern) (x # s) = pattern")
    case True
    hence "length (take (length pattern) (x # s)) = length pattern" by simp
    hence "length pattern \<le> length (x # s)" by simp
    with True show ?thesis by (intro exI [of _ 0]) simp
  next
    case False
    with Cons.prems have "indexOf_at s pattern (k + 1) \<noteq> - 1" by simp
    from Cons.IH [OF this] obtain j where
      j: "indexOf_at s pattern (k + 1) = int (k + 1 + j)" "j + length pattern \<le> length s"
         "take (length pattern) (drop j s) = pattern" by blast
    with False show ?thesis by (intro exI [of _ "Suc j"]) simp
  qed
qed

lemma replace_first_split:
  "\<exists>xs ys. (s = xs @ ys \<and> replace_first s pattern = xs @ ys) \<or>
           (s = xs @ pattern @ ys \<and> replace_first s pattern = xs @ ys)"
proof (cases "indexOf s pattern = - 1")
  case True
  hence "replace_first s pattern = s" by (simp add: replace_first_def)
  hence "s = [] @ s \<and> replace_first s pattern = [] @ s" by simp
  thus ?thesis by blast
next
  case False
  hence "indexOf_at s pattern 0 \<noteq> - 1" by (simp add: indexOf_def)
  from indexOf_at_found [OF this] obtain j where
    j: "indexOf s pattern = int j" "j + length pattern \<le> length s"
       "take (length pattern) (drop j s) = pattern" by (auto simp: indexOf_def)
  have "drop j s = take (length pattern) (drop j s) @ drop (length pattern) (drop j s)"
    by (simp only: append_take_drop_id)
  hence "drop j s = pattern @ drop (length pattern) (drop j s)"
    by (simp only: j(3))
  hence "drop j s = pattern @ drop (j + length pattern) s"
    by (simp only: drop_drop add.commute)
  hence "take j s @ drop j s = take j s @ pattern @ drop (j + length pattern) s"
    by simp
  hence s: "s = take j s @ pattern @ drop (j + length pattern) s"
    by simp
  have "replace_first s pattern = take j s @ drop (j + length pattern) s"
    using j(1) by (simp add: replace_first_def)
  with s show ?thesis by blast
qed

lemma strip_replace_first:
  assumes "set pattern \<subseteq> set ZWC_MAP"
  shows "replace_ZWC_PATTERN (replace_first s pattern) = replace_ZWC_PATTERN s"
proof -
  have drop: "filter (\<lambda>char. char \<notin> set ZWC_MAP) pattern = []"
    using assms by (auto simp: filter_empty_conv)
  from replace_first_split [of s pattern] obtain xs ys where
    "(s = xs @ ys \<and> replace_first s pattern = xs @ ys) \<or>
     (s = xs @ pattern @ ys \<and> replace_first s pattern = xs @ ys)" by blast
  thus ?thesis
  proof
    assume "s = xs @ ys \<and> replace_first s pattern = xs @ ys"
    hence "replace_first s pattern = s" by metis
    thus ?thesis by simp
  next
    assume a: "s = xs @ pattern @ ys \<and> replace_first s pattern = xs @ ys"
    hence "replace_ZWC_PATTERN s = replace_ZWC_PATTERN (xs @ ys)"
      using drop by (simp add: replace_ZWC_PATTERN_def)
    moreover from a have "replace_first s pattern = xs @ ys" by (rule conjunct2)
    ultimately show ?thesis by simp
  qed
qed

lemma sentinels_are_ZWC:
  "set START_SENTINEL \<subseteq> set ZWC_MAP" "set END_SENTINEL \<subseteq> set ZWC_MAP"
  by (simp_all add: START_SENTINEL_def END_SENTINEL_def ZWC_MAP_def)

lemma visibleText_of_strip:
  "visibleText_of stegaText = js_trim (replace_ZWC_PATTERN stegaText)"
  by (simp add: visibleText_of_def strip_replace_first sentinels_are_ZWC)

lemma decode_try_visibleText:
  "decode_try h visible allZWC password = Inr r \<Longrightarrow> visibleText r = visible"
  by (auto simp: decode_try_def andThen_def Let_def split: sum.splits if_splits)

text \<open>
  Claim C10. Without a START sentinel in the input, \<^verbatim>\<open>decodeText\<close>, \<^verbatim>\<open>decodeBinary\<close> and
  \<^verbatim>\<open>decode\<close> return with every payload field \<^verbatim>\<open>null\<close> and with the input minus its
  zero-width code points as visible text, untrimmed. With a START sentinel, whatever a
  decoder returns has the trimmed text as visible text: the first START and the first
  END sentinel removed, then the zero-width code points, then \<^verbatim>\<open>trim()\<close>.
\<close>

theorem decoders_without_START_sentinel:
  "(\<not> (\<exists>xs ys. stegaText = xs @ START_SENTINEL @ ys) \<longrightarrow>
      decodeText h stegaText password
        = Inr \<lparr>visibleText = filter (\<lambda>char. char \<notin> set ZWC_MAP) stegaText, secretMessage = None\<rparr> \<and>
      decodeBinary h stegaText password
        = Inr \<lparr>visibleText = filter (\<lambda>char. char \<notin> set ZWC_MAP) stegaText, binaryData = None\<rparr> \<and>
      decode h stegaText password
        = Inr \<lparr>visibleText = filter (\<lambda>char. char \<notin> set ZWC_MAP) stegaText, binaryData = None,
               payloadType = None, textData = None\<rparr>) \<and>
   ((\<exists>xs ys. stegaText = xs @ START_SENTINEL @ ys) \<longrightarrow>
      (\<forall>r. decodeText h stegaText password = Inr r \<longrightarrow>
         visibleText r = js_trim (replace_ZWC_PATTERN
           (replace_first (replace_first stegaText START_SENTINEL) END_SENTINEL))) \<and>
      (\<forall>r. decodeBinary h stegaText password = Inr r \<longrightarrow>
         visibleText r = js_trim (replace_ZWC_PATTERN
           (replace_first (replace_first stegaText START_SENTINEL) END_SENTINEL))) \<and>
      (\<forall>r. decode h stegaText password = Inr r \<longrightarrow>
         visibleText r = js_trim (replace_ZWC_PATTERN
           (replace_first (replace_first stegaText START_SENTINEL) END_SENTINEL))))"
proof (intro conjI impI allI)
  assume "\<not> (\<exists>xs ys. stegaText = xs @ START_SENTINEL @ ys)"
  hence no: "indexOf stegaText START_SENTINEL = - 1" by (simp add: indexOf_not_found)
  show "decodeText h stegaText password
        = Inr \<lparr>visibleText = filter (\<lambda>char. char \<notin> set ZWC_MAP) stegaText, secretMessage = None\<rparr>"
    using no by (simp add: decodeText_def replace_ZWC_PATTERN_def)
  show "decodeBinary h stegaText password
        = Inr \<lparr>visibleText = filter (\<lambda>char. char \<notin> set ZWC_MAP) stegaText, binaryData = None\<rparr>"
    using no by (simp add: decodeBinary_def replace_ZWC_PATTERN_def)
  show "decode h stegaText password
        = Inr \<lparr>visibleText = filter (\<lambda>char. char \<notin> set ZWC_MAP) stegaText, binaryData = None,
               payloadType = None, textData = None\<rparr>"
    using no by (simp add: decode_def replace_ZWC_PATTERN_def)
next
  fix r
  assume "\<exists>xs ys. stegaText = xs @ START_SENTINEL @ ys"
    and "decodeText h stegaText password = Inr r"
  hence "indexOf stegaText START_SENTINEL \<noteq> - 1" by (simp add: indexOf_not_found)
  with \<open>decodeText h stegaText password = Inr r\<close>
  show "visibleText r = js_trim (replace_ZWC_PATTERN
           (replace_first (replace_first stegaText START_SENTINEL) END_SENTINEL))"
    by (auto simp: decodeText_def Let_def visibleText_of_def split: if_splits sum.splits)
next
  fix r
  assume "\<exists>xs ys. stegaText = xs @ START_SENTINEL @ ys"
    and "decodeBinary h stegaText password = Inr r"
  hence "indexOf stegaText START_SENTINEL \<noteq> - 1" by (simp add: indexOf_not_found)
  with \<open>decodeBinary h stegaText password = Inr r\<close>
  show "visibleText r = js_trim (replace_ZWC_PATTERN
           (replace_first (replace_first stegaText START_SENTINEL) END_SENTINEL))"
    by (auto simp: decodeBinary_def Let_def visibleText_of_def split: if_splits sum.splits)
next
  fix r
  assume "\<exists>xs ys. stegaText = xs @ START_SENTINEL @ ys"
    and "decode h stegaText password = Inr r"
  hence "indexOf stegaText START_SENTINEL \<noteq> - 1" by (simp add: indexOf_not_found)
  with \<open>decode h stegaText password = Inr r\<close>
  show "visibleText r = js_trim (replace_ZWC_PATTERN
           (replace_first (replace_first stegaText START_SENTINEL) END_SENTINEL))"
    by (auto simp: decode_def Let_def visibleText_of_def dest: decode_try_visibleText
             split: if_splits sum.splits)
qed

theorem decoders_without_START_sentinel_witness:
  "decodeText plainHost [0x20, 0x61, 0x200d, 0x20] None
     = Inr \<lparr>visibleText = [0x20, 0x61, 0x20], secretMessage = None\<rparr> \<and>
   decodeBinary plainHost [0x20, 0x61, 0x200d, 0x20] None
     = Inr \<lparr>visibleText = [0x20, 0x61, 0x20], binaryData = None\<rparr> \<and>
   decode plainHost [0x20, 0x61, 0x200d, 0x20] None
     = Inr \<lparr>visibleText = [0x20, 0x61, 0x20], binaryData = None, payloadType = None,
            textData = None\<rparr> \<and>
   decodeText plainHost [0x20, 0x61, 0x200b, 0x200c, 0x200b, 0x20] None
     = Inr \<lparr>visibleText = [0x61], secretMessage = None\<rparr> \<and>
   js_trim (replace_ZWC_PATTERN (replace_first (replace_first
      [0x20, 0x61, 0x200b, 0x200c, 0x200b, 0x20] START_SENTINEL) END_SENTINEL)) = [0x61]"
proof -
  have no: "\<not> (\<exists>xs ys. [0x20, 0x61, 0x200d, 0x20] = xs @ START_SENTINEL @ ys)"
    unfolding indexOf_not_found [symmetric] by (simp add: indexOf_def START_SENTINEL_def)
  have "indexOf [0x20, 0x61, 0x200b, 0x200c, 0x200b, 0x20] START_SENTINEL \<noteq> - 1"
    by (simp add: indexOf_def START_SENTINEL_def)
  hence yes: "\<exists>xs ys. [0x20, 0x61, 0x200b, 0x200c, 0x200b, 0x20] = xs @ START_SENTINEL @ ys"
    unfolding indexOf_not_found by simp
  have run: "decodeText plainHost [0x20, 0x61, 0x200b, 0x200c, 0x200b, 0x20] None
     = Inr \<lparr>visibleText = [0x61], secretMessage = None\<rparr>"
    by (simp add: decodeText_def indexOf_def START_SENTINEL_def END_SENTINEL_def
          substring_from_def substring_def extractZWCChars_def ZWC_MAP_def visibleText_of_def
          replace_first_def replace_ZWC_PATTERN_def js_trim_def isWhiteSpace_def Let_def)
  from decoders_without_START_sentinel
         [of "[0x20, 0x61, 0x200d, 0x20]" plainHost None, THEN conjunct1, rule_format, OF no]
  have first: "decodeText plainHost [0x20, 0x61, 0x200d, 0x20] None
     = Inr \<lparr>visibleText = [0x20, 0x61, 0x20], secretMessage = None\<rparr> \<and>
   decodeBinary plainHost [0x20, 0x61, 0x200d, 0x20] None
     = Inr \<lparr>visibleText = [0x20, 0x61, 0x20], binaryData = None\<rparr> \<and>
   decode plainHost [0x20, 0x61, 0x200d, 0x20] None
     = Inr \<lparr>visibleText = [0x20, 0x61, 0x20], binaryData = None, payloadType = None,
            textData = None\<rparr>"
    by (simp add: ZWC_MAP_def)
  from decoders_without_START_sentinel
         [of "[0x20, 0x61, 0x200b, 0x200c, 0x200b, 0x20]" plainHost None, THEN conjunct2,
          rule_format, OF yes, THEN conjunct1, rule_format, OF run]
  have "js_trim (replace_ZWC_PATTERN (replace_first (replace_first
      [0x20, 0x61, 0x200b, 0x200c, 0x200b, 0x20] START_SENTINEL) END_SENTINEL)) = [0x61]"
    by simp
  with first run show ?thesis by simp
qed

end
